theory Spec2Isabelle
  imports Complex_Main "HOL-Library.Multiset" "HOL-Library.AList"
begin

section \<open>Data model\<close>

text \<open>
  The analyzer works on JavaScript numbers. They are modelled as exact reals: the
  parser drops every row with a NaN field, so samples hold finite numbers only, and
  rounding error of the floating-point operations is not modelled. The values that
  are not real numbers and that the code does produce are written out: \<open>Infinity\<close>
  as the initial minimum of the nearest-timestamp searches, \<open>undefined\<close> for an array
  read out of range, \<open>null\<close> for an absent median, and NaN where a division by zero
  or an arithmetic operation on \<open>undefined\<close> yields one.
\<close>

record sample =
  time :: real
  rpm :: real
  pw :: real
  lambda :: real
  load :: real

record config =
  MIN_RPM :: real
  MIN_PW :: real
  PW_CHANGE_THRESHOLD :: real
  LAMBDA_CHANGE_THRESHOLD :: real
  MAX_DELAY_MS :: real
  BUCKET_COUNT :: nat

record bucket =
  bucket_data :: "sample list"
  bucket_delays :: "real list"

record analyzer =
  config :: config
  data :: "sample list"
  buckets :: "bucket list list"
  rpmBoundaries :: "real list"
  loadBoundaries :: "real list"

datatype error = TypeError

text \<open>A number that may be \<open>Infinity\<close> (the initial value of a running minimum).\<close>

datatype num_inf = Num real | Infinity

fun lt_inf :: "real \<Rightarrow> num_inf \<Rightarrow> bool" where
  "lt_inf x Infinity = True"
| "lt_inf x (Num m) = (x < m)"

subsection \<open>Array reads\<close>

text \<open>
  \<open>xs[i]\<close> in JavaScript is \<open>undefined\<close> out of range (\<open>None\<close> here). Comparing a
  number with \<open>undefined\<close> is false for each of \<open>>=\<close>, \<open><\<close> and \<open>===\<close>.
\<close>

definition js_index :: "'a list \<Rightarrow> nat \<Rightarrow> 'a option" where
  "js_index xs i = (if i < length xs then Some (xs ! i) else None)"

definition js_index_int :: "'a list \<Rightarrow> int \<Rightarrow> 'a option" where
  "js_index_int xs i = (if 0 \<le> i \<and> i < int (length xs) then Some (xs ! nat i) else None)"

fun js_ge :: "real \<Rightarrow> real option \<Rightarrow> bool" where
  "js_ge v None = False"
| "js_ge v (Some b) = (v \<ge> b)"

fun js_lt :: "real \<Rightarrow> real option \<Rightarrow> bool" where
  "js_lt v None = False"
| "js_lt v (Some b) = (v < b)"

fun js_eq :: "real \<Rightarrow> real option \<Rightarrow> bool" where
  "js_eq v None = False"
| "js_eq v (Some b) = (v = b)"

text \<open>\<open>Math.round\<close>: the nearest integer, a tie going up.\<close>

definition js_round :: "real \<Rightarrow> int" where
  "js_round x = \<lfloor>x + 1 / 2\<rfloor>"

section \<open>Bucketer: \<open>getBucketIndex\<close> and \<open>assignToBuckets\<close>\<close>

function getBucketIndex_loop :: "config \<Rightarrow> real \<Rightarrow> real list \<Rightarrow> nat \<Rightarrow> int" where
  "getBucketIndex_loop cfg v boundaries i =
     (if i < BUCKET_COUNT cfg then
        (if js_ge v (js_index boundaries i) \<and> js_lt v (js_index boundaries (i + 1))
         then int i
         else getBucketIndex_loop cfg v boundaries (i + 1))
      else if js_eq v (js_index boundaries (BUCKET_COUNT cfg))
      then int (BUCKET_COUNT cfg) - 1
      else - 1)"
  by pat_completeness auto
termination
  by (relation "measure (\<lambda>(cfg, v, boundaries, i). BUCKET_COUNT cfg - i)") auto

declare getBucketIndex_loop.simps [simp del]

definition getBucketIndex :: "config \<Rightarrow> real \<Rightarrow> real list \<Rightarrow> int" where
  "getBucketIndex cfg v boundaries = getBucketIndex_loop cfg v boundaries 0"

text \<open>
  \<open>this.buckets[r][l].data.push(point)\<close>: reading a field of \<open>undefined\<close> (a missing
  row or a missing cell) throws a TypeError.
\<close>

definition push_point :: "bucket list list \<Rightarrow> int \<Rightarrow> int \<Rightarrow> sample \<Rightarrow> error + bucket list list" where
  "push_point bs r l point =
     (case js_index_int bs r of
        None \<Rightarrow> Inl TypeError
      | Some row \<Rightarrow>
          (case js_index_int row l of
             None \<Rightarrow> Inl TypeError
           | Some b \<Rightarrow>
               Inr (bs[nat r := row[nat l := b\<lparr>bucket_data := bucket_data b @ [point]\<rparr>]])))"

fun assignToBuckets_loop ::
  "config \<Rightarrow> real list \<Rightarrow> real list \<Rightarrow> sample list \<Rightarrow> bucket list list \<Rightarrow> error + bucket list list" where
  "assignToBuckets_loop cfg rb lb [] bs = Inr bs"
| "assignToBuckets_loop cfg rb lb (point # rest) bs =
     (let rpmBucket = getBucketIndex cfg (rpm point) rb;
          loadBucket = getBucketIndex cfg (load point) lb
      in if rpmBucket \<noteq> - 1 \<and> loadBucket \<noteq> - 1 then
           (case push_point bs rpmBucket loadBucket point of
              Inl e \<Rightarrow> Inl e
            | Inr bs' \<Rightarrow> assignToBuckets_loop cfg rb lb rest bs')
         else assignToBuckets_loop cfg rb lb rest bs)"

definition assignToBuckets :: "analyzer \<Rightarrow> error + analyzer" where
  "assignToBuckets a =
     (case assignToBuckets_loop (config a) (rpmBoundaries a) (loadBoundaries a) (data a) (buckets a) of
        Inl e \<Rightarrow> Inl e
      | Inr bs \<Rightarrow> Inr (a\<lparr>buckets := bs\<rparr>))"

text \<open>The grid the constructor builds: \<open>BUCKET_COUNT\<close> rows of \<open>BUCKET_COUNT\<close> cells.\<close>

definition grid_ok :: "nat \<Rightarrow> 'a list list \<Rightarrow> bool" where
  "grid_ok n g = (length g = n \<and> list_all (\<lambda>row. length row = n) g)"

section \<open>Delay Detector: \<open>findDelaysInSequence\<close>\<close>

function findDelays_inner :: "config \<Rightarrow> sample list \<Rightarrow> nat \<Rightarrow> real \<Rightarrow> nat \<Rightarrow> real option" where
  "findDelays_inner cfg d i expectedLambdaDirection j =
     (if j < min (i + 100) (length d) then
        (let future = d ! j;
             curr = d ! i;
             lambdaChange = lambda future - lambda curr;
             timeDiff = (time future - time curr) * 1000
         in if sgn lambdaChange = expectedLambdaDirection \<and>
               \<bar>lambdaChange\<bar> \<ge> LAMBDA_CHANGE_THRESHOLD cfg \<and>
               timeDiff \<le> MAX_DELAY_MS cfg
            then Some timeDiff
            else findDelays_inner cfg d i expectedLambdaDirection (j + 1))
      else None)"
  by pat_completeness auto
termination
  by (relation "measure (\<lambda>(cfg, d, i, dir, j). length d - j)") auto

declare findDelays_inner.simps [simp del]

function findDelays_outer :: "config \<Rightarrow> sample list \<Rightarrow> nat \<Rightarrow> real list \<Rightarrow> real list" where
  "findDelays_outer cfg d i delays =
     (if int i < int (length d) - 1 then
        (let prev = d ! (i - 1);
             curr = d ! i;
             pwChange = pw curr - pw prev
         in if \<bar>pwChange\<bar> < PW_CHANGE_THRESHOLD cfg
            then findDelays_outer cfg d (i + 1) delays
            else (case findDelays_inner cfg d i (- sgn pwChange) (i + 1) of
                    Some timeDiff \<Rightarrow> findDelays_outer cfg d (i + 1) (delays @ [timeDiff])
                  | None \<Rightarrow> findDelays_outer cfg d (i + 1) delays))
      else delays)"
  by pat_completeness auto
termination
  by (relation "measure (\<lambda>(cfg, d, i, delays). length d - i)") auto

declare findDelays_outer.simps [simp del]

text \<open>
  \<open>data.sort((a, b) => a.time - b.time)\<close> is a stable sort on the time stamps, as
  \<open>sort_key\<close> is. The outer loop starts at index 1.
\<close>

definition findDelaysInSequence :: "config \<Rightarrow> sample list \<Rightarrow> real list" where
  "findDelaysInSequence cfg d = findDelays_outer cfg (sort_key time d) 1 []"

text \<open>One bucket of \<open>calculateDelays\<close>: fewer than 10 samples are left alone.\<close>

definition calculateDelays_bucket :: "config \<Rightarrow> bucket \<Rightarrow> bucket" where
  "calculateDelays_bucket cfg b =
     (if length (bucket_data b) < 10 then b
      else b\<lparr>bucket_data := sort_key time (bucket_data b),
             bucket_delays := findDelaysInSequence cfg (bucket_data b)\<rparr>)"

text \<open>
  The Delay Detector in the words of the specification: event \<open>i\<close> yields the time
  difference to the first qualifying index of its window, if there is one.
\<close>

definition qualifies :: "config \<Rightarrow> sample list \<Rightarrow> nat \<Rightarrow> nat \<Rightarrow> bool" where
  "qualifies cfg d i j =
     (sgn (lambda (d ! j) - lambda (d ! i)) = - sgn (pw (d ! i) - pw (d ! (i - 1))) \<and>
      \<bar>lambda (d ! j) - lambda (d ! i)\<bar> \<ge> LAMBDA_CHANGE_THRESHOLD cfg \<and>
      (time (d ! j) - time (d ! i)) * 1000 \<le> MAX_DELAY_MS cfg)"

definition spec_event :: "config \<Rightarrow> sample list \<Rightarrow> nat \<Rightarrow> real option" where
  "spec_event cfg d i =
     (if \<bar>pw (d ! i) - pw (d ! (i - 1))\<bar> < PW_CHANGE_THRESHOLD cfg then None
      else (case find (qualifies cfg d i) [i + 1 ..< min (i + 100) (length d)] of
              None \<Rightarrow> None
            | Some j \<Rightarrow> Some ((time (d ! j) - time (d ! i)) * 1000)))"

definition spec_delays :: "config \<Rightarrow> sample list \<Rightarrow> real list" where
  "spec_delays cfg d = List.map_filter (spec_event cfg d) [1 ..< length d - 1]"

section \<open>Aggregator: \<open>median\<close>\<close>

definition median :: "real list \<Rightarrow> real option" where
  "median arr =
     (if length arr = 0 then None
      else (let sorted_arr = sort arr;
                mid = length sorted_arr div 2
            in Some (if length sorted_arr mod 2 = 0
                     then (sorted_arr ! (mid - 1) + sorted_arr ! mid) / 2
                     else sorted_arr ! mid)))"

text \<open>The even/odd rule of the specification on a list that is already sorted.\<close>

definition central :: "real list \<Rightarrow> real" where
  "central s =
     (if even (length s) then (s ! (length s div 2 - 1) + s ! (length s div 2)) / 2
      else s ! (length s div 2))"

section \<open>Validator: \<open>calculateLambdaErrors\<close>\<close>

text \<open>
  The linear search for the sample nearest to \<open>targetTime\<close>: \<open>closestIdx\<close> starts at
  \<open>-1\<close> and \<open>minTimeDiff\<close> at \<open>Infinity\<close>; a sample replaces the current best only
  when it is strictly nearer.
\<close>

function nearest_scan :: "sample list \<Rightarrow> real \<Rightarrow> nat \<Rightarrow> int \<Rightarrow> num_inf \<Rightarrow> int \<times> num_inf" where
  "nearest_scan d targetTime i closestIdx minTimeDiff =
     (if i < length d then
        (let timeDiff = \<bar>time (d ! i) - targetTime\<bar>
         in if lt_inf timeDiff minTimeDiff
            then nearest_scan d targetTime (i + 1) (int i) (Num timeDiff)
            else nearest_scan d targetTime (i + 1) closestIdx minTimeDiff)
      else (closestIdx, minTimeDiff))"
  by pat_completeness auto
termination
  by (relation "measure (\<lambda>(d, t, i, c, m). length d - i)") auto

declare nearest_scan.simps [simp del]

text \<open>The test \<open>closestIdx !== -1 && minTimeDiff < 0.5\<close>.\<close>

fun within_tolerance :: "int \<times> num_inf \<Rightarrow> bool" where
  "within_tolerance (closestIdx, Infinity) = False"
| "within_tolerance (closestIdx, Num m) = (closestIdx \<noteq> - 1 \<and> m < 1 / 2)"

text \<open>
  \<open>bucketErrors\<close> is an object keyed by the string \<open>"rpmBucket,loadBucket"\<close>; its
  values are listed in the order in which the keys were first inserted. It is an
  association list on the pair of indices: a new key goes to the end, a known key
  is updated in place.
\<close>

type_synonym bucket_errors = "((int \<times> int) \<times> real list) list"

definition push_lambda :: "bucket_errors \<Rightarrow> int \<times> int \<Rightarrow> real \<Rightarrow> bucket_errors" where
  "push_lambda be k l =
     AList.update k ((case map_of be k of None \<Rightarrow> [] | Some ls \<Rightarrow> ls) @ [l]) be"

text \<open>
  One iteration of the loop over \<open>analyzer.data\<close>. \<open>delayTable[r][l]\<close> throws a
  TypeError when the row is missing. A missing cell is \<open>undefined\<close>, which is not
  \<open>null\<close>: the target time is then NaN, every comparison with it fails, \<open>closestIdx\<close>
  stays \<open>-1\<close> and nothing is recorded. A \<open>null\<close> cell is \<open>Some None\<close>.
\<close>

definition validate_point ::
  "analyzer \<Rightarrow> real option list list \<Rightarrow> bucket_errors \<Rightarrow> sample \<Rightarrow> error + bucket_errors" where
  "validate_point a delayTable be point =
     (let rpmBucket = getBucketIndex (config a) (rpm point) (rpmBoundaries a);
          loadBucket = getBucketIndex (config a) (load point) (loadBoundaries a)
      in if rpmBucket = - 1 \<or> loadBucket = - 1 then Inr be
         else (case js_index_int delayTable rpmBucket of
                 None \<Rightarrow> Inl TypeError
               | Some row \<Rightarrow>
                   (case js_index_int row loadBucket of
                      None \<Rightarrow> Inr be
                    | Some None \<Rightarrow> Inr be
                    | Some (Some estimatedDelay) \<Rightarrow>
                        (let targetTime = time point - estimatedDelay / 1000
                         in if within_tolerance (nearest_scan (data a) targetTime 0 (- 1) Infinity)
                            then Inr (push_lambda be (rpmBucket, loadBucket) (lambda point))
                            else Inr be))))"

fun validate_loop ::
  "analyzer \<Rightarrow> real option list list \<Rightarrow> sample list \<Rightarrow> bucket_errors \<Rightarrow> error + bucket_errors" where
  "validate_loop a delayTable [] be = Inr be"
| "validate_loop a delayTable (point # rest) be =
     (case validate_point a delayTable be point of
        Inl e \<Rightarrow> Inl e
      | Inr be' \<Rightarrow> validate_loop a delayTable rest be')"

text \<open>The statistics: \<open>reduce\<close> is a left fold, \<open>Math.pow(x, 2)\<close> a square.\<close>

definition js_mean :: "real list \<Rightarrow> real" where
  "js_mean xs = foldl (\<lambda>a b. a + b) 0 xs / real (length xs)"

definition js_stdDev :: "real list \<Rightarrow> real" where
  "js_stdDev xs =
     (let mean = js_mean xs
      in sqrt (foldl (\<lambda>a b. a + (b - mean)\<^sup>2) 0 xs / real (length xs)))"

fun stdDevs_loop :: "real list list \<Rightarrow> real list \<Rightarrow> real list" where
  "stdDevs_loop [] stdDevs = stdDevs"
| "stdDevs_loop (lambdas # rest) stdDevs =
     (if length lambdas < 10 then stdDevs_loop rest stdDevs
      else stdDevs_loop rest (stdDevs @ [js_stdDev lambdas]))"

record report =
  bucketErrors :: bucket_errors
  avgStdDev :: real
  bucketsAnalyzed :: nat

definition summarize :: "bucket_errors \<Rightarrow> report" where
  "summarize be =
     (let stdDevs = stdDevs_loop (map snd be) []
      in \<lparr>bucketErrors = be,
          avgStdDev = (if length stdDevs > 0 then foldl (\<lambda>a b. a + b) 0 stdDevs / real (length stdDevs) else 0),
          bucketsAnalyzed = length stdDevs\<rparr>)"

definition calculateLambdaErrors :: "analyzer \<Rightarrow> real option list list \<Rightarrow> error + report" where
  "calculateLambdaErrors a delayTable =
     (case validate_loop a delayTable (data a) [] of
        Inl e \<Rightarrow> Inl e
      | Inr be \<Rightarrow> Inr (summarize be))"

subsection \<open>The binary-search variant \<open>findClosestIndex\<close>\<close>





section \<open>Table Builder: \<open>generateTable\<close>\<close>

text \<open>
  The midpoint of two boundaries is NaN (\<open>None\<close>) when one of them is \<open>undefined\<close>, and
  \<open>Math.round\<close> of NaN is NaN.
\<close>

fun js_mid :: "real option \<Rightarrow> real option \<Rightarrow> real option" where
  "js_mid (Some x) (Some y) = Some ((x + y) / 2)"
| "js_mid _ _ = None"

function axis_loop ::
  "analyzer \<Rightarrow> nat \<Rightarrow> int option list \<Rightarrow> int option list \<Rightarrow> int option list \<times> int option list" where
  "axis_loop a i rpmValues loadValues =
     (if i < BUCKET_COUNT (config a) then
        (let rpmMid = js_mid (js_index (rpmBoundaries a) i) (js_index (rpmBoundaries a) (i + 1));
             loadMid = js_mid (js_index (loadBoundaries a) i) (js_index (loadBoundaries a) (i + 1))
         in axis_loop a (i + 1) (rpmValues @ [map_option js_round rpmMid])
              (loadValues @ [map_option js_round loadMid]))
      else (rpmValues, loadValues))"
  by pat_completeness auto
termination
  by (relation "measure (\<lambda>(a, i, r, l). BUCKET_COUNT (config a) - i)") auto

declare axis_loop.simps [simp del]

text \<open>\<open>Math.round(delay * 10) / 10\<close>, or \<open>null\<close> for a \<open>null\<close> median.\<close>

definition roundedDelay :: "real option \<Rightarrow> real option" where
  "roundedDelay delay =
     (case delay of None \<Rightarrow> None | Some v \<Rightarrow> Some (real_of_int (js_round (v * 10)) / 10))"

text \<open>
  One row of cells. \<open>this.buckets[i][j]\<close> of a missing row, and \<open>bucket.delays\<close> of a
  missing bucket, throw a TypeError.
\<close>

function cells_loop :: "analyzer \<Rightarrow> nat \<Rightarrow> nat \<Rightarrow> real option list \<Rightarrow> error + real option list" where
  "cells_loop a i j delays =
     (if j < BUCKET_COUNT (config a) then
        (case js_index (buckets a) i of
           None \<Rightarrow> Inl TypeError
         | Some row \<Rightarrow>
             (case js_index row j of
                None \<Rightarrow> Inl TypeError
              | Some b \<Rightarrow>
                  cells_loop a i (j + 1) (delays @ [roundedDelay (median (bucket_delays b))])))
      else Inr delays)"
  by pat_completeness auto
termination
  by (relation "measure (\<lambda>(a, i, j, ds). BUCKET_COUNT (config a) - j)") auto

declare cells_loop.simps [simp del]

record table_row =
  row_rpm :: "int option"
  row_load :: "int option list"
  row_delays :: "real option list"

text \<open>
  The rows. \<open>rpmValues[i]\<close> is read from the list the first loop has filled; a read
  out of range would be \<open>undefined\<close>, kept as \<open>None\<close> like NaN.
\<close>

function rows_loop ::
  "analyzer \<Rightarrow> int option list \<Rightarrow> int option list \<Rightarrow> nat \<Rightarrow> table_row list \<Rightarrow> error + table_row list" where
  "rows_loop a rpmValues loadValues i table =
     (if i < BUCKET_COUNT (config a) then
        (case cells_loop a i 0 [] of
           Inl e \<Rightarrow> Inl e
         | Inr delays \<Rightarrow>
             rows_loop a rpmValues loadValues (i + 1)
               (table @ [\<lparr>row_rpm = (case js_index rpmValues i of None \<Rightarrow> None | Some v \<Rightarrow> v),
                           row_load = loadValues, row_delays = delays\<rparr>]))
      else Inr table)"
  by pat_completeness auto
termination
  by (relation "measure (\<lambda>(a, r, l, i, t). BUCKET_COUNT (config a) - i)") auto

declare rows_loop.simps [simp del]

text \<open>The result: the table, and the axis values stored in the analyzer.\<close>

definition generateTable :: "analyzer \<Rightarrow> error + table_row list \<times> int option list \<times> int option list" where
  "generateTable a =
     (case axis_loop a 0 [] [] of
        (rpmValues, loadValues) \<Rightarrow>
          (case rows_loop a rpmValues loadValues 0 [] of
             Inl e \<Rightarrow> Inl e
           | Inr table \<Rightarrow> Inr (table, rpmValues, loadValues)))"

section \<open>Cross-Session Aggregator: \<open>bucketStats\<close>\<close>

text \<open>
  Each session result carries a 3 by 3 \<open>delayTable\<close> of cells \<open>{median, count}\<close>. For
  a bucket the script collects the medians that are not \<open>null\<close>, in the order of the
  sessions. Reading a cell of a missing row, or \<open>.median\<close> of a missing cell, throws.
\<close>

record cell =
  cell_median :: "real option"
  cell_count :: nat

fun collect_medians :: "cell list list list \<Rightarrow> nat \<Rightarrow> nat \<Rightarrow> real list \<Rightarrow> error + real list" where
  "collect_medians [] i j vals = Inr vals"
| "collect_medians (tbl # rest) i j vals =
     (case js_index tbl i of
        None \<Rightarrow> Inl TypeError
      | Some row \<Rightarrow>
          (case js_index row j of
             None \<Rightarrow> Inl TypeError
           | Some c \<Rightarrow>
               (case cell_median c of
                  None \<Rightarrow> collect_medians rest i j vals
                | Some m \<Rightarrow> collect_medians rest i j (vals @ [m]))))"

text \<open>
  \<open>Math.min(...values)\<close> and \<open>Math.max(...values)\<close>, which the script applies to
  lists of two values or more only.
\<close>

definition Math_min :: "real list \<Rightarrow> real" where
  "Math_min vals = foldl min (hd vals) (tl vals)"

definition Math_max :: "real list \<Rightarrow> real" where
  "Math_max vals = foldl max (hd vals) (tl vals)"

text \<open>
  \<open>cv\<close> is \<open>None\<close> when the mean is zero: the quotient is then NaN or infinite, not a
  number of the model.
\<close>

record bucket_stats =
  st_rpm :: nat
  st_load :: nat
  st_filesWithData :: nat
  st_values :: "real list"
  st_mean :: real
  st_stdDev :: real
  st_cv :: "real option"
  st_min :: real
  st_max :: real
  st_range :: real

definition stats_of :: "nat \<Rightarrow> nat \<Rightarrow> real list \<Rightarrow> bucket_stats option" where
  "stats_of i j vals =
     (if length vals > 1 then
        (let mean = foldl (\<lambda>a b. a + b) 0 vals / real (length vals);
             variance = foldl (\<lambda>a b. a + (b - mean)\<^sup>2) 0 vals / real (length vals);
             stdDev = sqrt variance;
             cv = (if mean = 0 then None else Some (stdDev / mean * 100));
             mn = Math_min vals;
             mx = Math_max vals
         in Some \<lparr>st_rpm = i, st_load = j, st_filesWithData = length vals, st_values = vals,
                  st_mean = mean, st_stdDev = stdDev, st_cv = cv,
                  st_min = mn, st_max = mx, st_range = mx - mn\<rparr>)
      else None)"

definition bucketStats :: "cell list list list \<Rightarrow> nat \<Rightarrow> nat \<Rightarrow> error + bucket_stats option" where
  "bucketStats allResults i j =
     (case collect_medians allResults i j [] of
        Inl e \<Rightarrow> Inl e
      | Inr vals \<Rightarrow> Inr (stats_of i j vals))"

section \<open>Specification-side notions\<close>

text \<open>The interval rule of the Bucketer: \<open>boundaries[i] <= value < boundaries[i+1]\<close>.\<close>

definition in_interval :: "real list \<Rightarrow> real \<Rightarrow> nat \<Rightarrow> bool" where
  "in_interval bs v i = (bs ! i \<le> v \<and> v < bs ! (i + 1))"

text \<open>The default configuration \<open>CONFIG\<close> of the analyzer.\<close>

definition CONFIG :: config where
  "CONFIG = \<lparr>MIN_RPM = 500, MIN_PW = 1, PW_CHANGE_THRESHOLD = 1 / 2,
     LAMBDA_CHANGE_THRESHOLD = 1 / 20, MAX_DELAY_MS = 2000, BUCKET_COUNT = 3\<rparr>"

text \<open>The thresholds recommended for coverage, and two small sample lists.\<close>

definition recommended :: config where
  "recommended = \<lparr>MIN_RPM = 500, MIN_PW = 1, PW_CHANGE_THRESHOLD = 2 / 10,
     LAMBDA_CHANGE_THRESHOLD = 2 / 100, MAX_DELAY_MS = 2000, BUCKET_COUNT = 3\<rparr>"

definition mk_sample :: "real \<Rightarrow> real \<Rightarrow> real \<Rightarrow> sample" where
  "mk_sample t p l = \<lparr>time = t, rpm = 1000, pw = p, lambda = l, load = 50\<rparr>"

definition scenario_c :: "sample list" where
  "scenario_c = [mk_sample (99 / 10) 2 1, mk_sample 10 (23 / 10) 1, mk_sample (1018 / 100) (23 / 10) (97 / 100)]"

definition tie_samples :: "sample list" where
  "tie_samples = [mk_sample 0 2 1, mk_sample 1 2 1, mk_sample 2 2 1, mk_sample 3 2 1,
     mk_sample 4 2 1, mk_sample 5 2 1, mk_sample 6 2 1, mk_sample 7 2 1,
     mk_sample 8 3 1, mk_sample 8 3 (9 / 10)]"

text \<open>
  The Validator's acceptance test in the words of the specification: the nearest time
  stamp of the store differs from the target by less than 500 ms. The accuracy list of
  a bucket is the list stored under its key, empty when the key is absent.
\<close>

definition nearest_within :: "sample list \<Rightarrow> real \<Rightarrow> bool" where
  "nearest_within d t = (d \<noteq> [] \<and> Min ((\<lambda>s. \<bar>time s - t\<bar>) ` set d) < 1 / 2)"

definition accuracy_list :: "bucket_errors \<Rightarrow> int \<times> int \<Rightarrow> real list" where
  "accuracy_list be k = (case map_of be k of None \<Rightarrow> [] | Some ls \<Rightarrow> ls)"

text \<open>A small store with its boundaries, and a delay table with one cell.\<close>

definition demo_analyzer :: analyzer where
  "demo_analyzer = \<lparr>config = CONFIG,
     data = [mk_sample 0 2 1, mk_sample (1 / 10) 2 (11 / 10), mk_sample (2 / 10) 2 (12 / 10)],
     buckets = replicate 3 (replicate 3 \<lparr>bucket_data = [], bucket_delays = []\<rparr>),
     rpmBoundaries = [500, 1000, 2000, 3000],
     loadBoundaries = [10, 30, 50, 90]\<rparr>"

definition demo_table :: "real option list list" where
  "demo_table = [[None, None, None], [None, None, Some 100], [None, None, None]]"

text \<open>
  The population standard deviation, the target time of a sample under a delay table
  (absent when the sample is skipped), and the number of values recorded so far.
\<close>

definition pop_stddev :: "real list \<Rightarrow> real" where
  "pop_stddev xs =
     sqrt ((\<Sum>x\<leftarrow>xs. (x - sum_list xs / real (length xs))\<^sup>2) / real (length xs))"

definition target_of :: "analyzer \<Rightarrow> real option list list \<Rightarrow> sample \<Rightarrow> real option" where
  "target_of a delayTable p =
     (let r = getBucketIndex (config a) (rpm p) (rpmBoundaries a);
          l = getBucketIndex (config a) (load p) (loadBoundaries a)
      in if r = - 1 \<or> l = - 1 then None
         else (case js_index_int delayTable r of
                 None \<Rightarrow> None
               | Some row \<Rightarrow>
                   (case js_index_int row l of
                      Some (Some delay) \<Rightarrow> Some (time p - delay / 1000)
                    | _ \<Rightarrow> None)))"





text \<open>Three session tables whose bucket \<open>[0,0]\<close> has the medians 90, 100 and 110.\<close>

definition session_with :: "real \<Rightarrow> cell list list" where
  "session_with m =
     [[\<lparr>cell_median = Some m, cell_count = 5\<rparr>, \<lparr>cell_median = None, cell_count = 0\<rparr>,
       \<lparr>cell_median = None, cell_count = 0\<rparr>],
      replicate 3 \<lparr>cell_median = None, cell_count = 0\<rparr>,
      replicate 3 \<lparr>cell_median = None, cell_count = 0\<rparr>]"

definition scenario_d :: "cell list list list" where
  "scenario_d = [session_with 90, session_with 100, session_with 110]"

text \<open>
  The axis value and the table cell of an index, as the loops of \<open>generateTable\<close>
  compute them, and an analyzer with one bucket that holds two measurements.
\<close>

definition axis_value :: "real list \<Rightarrow> nat \<Rightarrow> int option" where
  "axis_value bs i = map_option js_round (js_mid (js_index bs i) (js_index bs (i + 1)))"

definition table_cell :: "analyzer \<Rightarrow> nat \<Rightarrow> nat \<Rightarrow> real option" where
  "table_cell a i j = roundedDelay (median (bucket_delays (buckets a ! i ! j)))"

definition table_analyzer :: analyzer where
  "table_analyzer = demo_analyzer\<lparr>buckets :=
     [replicate 3 \<lparr>bucket_data = [], bucket_delays = []\<rparr>,
      [\<lparr>bucket_data = [], bucket_delays = []\<rparr>, \<lparr>bucket_data = [], bucket_delays = []\<rparr>,
       \<lparr>bucket_data = [], bucket_delays = [240, 24092 / 100]\<rparr>],
      replicate 3 \<lparr>bucket_data = [], bucket_delays = []\<rparr>]\<rparr>"


text \<open>
  What the specification says of one sample \<open>p\<close> and one bucket \<open>k\<close>: \<open>p\<close> falls in
  bucket \<open>k\<close>, the delay table has a value for that bucket, and the time stamp nearest
  to \<open>p.time - delay / 1000\<close> in the store is less than 500 ms away from it.
\<close>

definition recorded_in :: "analyzer \<Rightarrow> real option list list \<Rightarrow> int \<times> int \<Rightarrow> sample \<Rightarrow> bool" where
  "recorded_in a delayTable k p =
     (let r = getBucketIndex (config a) (rpm p) (rpmBoundaries a);
          l = getBucketIndex (config a) (load p) (loadBoundaries a)
      in k = (r, l) \<and> r \<noteq> - 1 \<and> l \<noteq> - 1 \<and>
         (case delayTable ! nat r ! nat l of
            None \<Rightarrow> False
          | Some delay \<Rightarrow> nearest_within (data a) (time p - delay / 1000)))"

text \<open>
  A store of twelve samples a quarter of a second apart, one of them in a bucket whose
  cell is \<open>null\<close> and one below the first RPM boundary, with a table of one cell.
\<close>

definition run_store :: analyzer where
  "run_store = demo_analyzer\<lparr>data :=
     [mk_sample 0 2 1, mk_sample (1 / 4) 2 (101 / 100), mk_sample (1 / 2) 2 (51 / 50),
      mk_sample (3 / 4) 2 (103 / 100), mk_sample 1 2 (26 / 25),
      \<lparr>time = 5 / 4, rpm = 2500, pw = 2, lambda = 21 / 20, load = 50\<rparr>,
      mk_sample (3 / 2) 2 (53 / 50),
      \<lparr>time = 7 / 4, rpm = 100, pw = 2, lambda = 107 / 100, load = 50\<rparr>,
      mk_sample 2 2 (27 / 25), mk_sample (9 / 4) 2 (109 / 100),
      mk_sample (5 / 2) 2 (11 / 10), mk_sample (11 / 4) 2 (111 / 100)]\<rparr>"

definition run_table :: "real option list list" where
  "run_table = [[None, None, None], [None, None, Some 750], [None, None, None]]"

section \<open>Verification\<close>

subsection \<open>Bucketer\<close>

lemma getBucketIndex_loop_find:
  assumes "length bs = BUCKET_COUNT cfg + 1"
  shows "getBucketIndex_loop cfg v bs i =
     (case find (in_interval bs v) [i ..< BUCKET_COUNT cfg] of
        Some k \<Rightarrow> int k
      | None \<Rightarrow> if v = bs ! BUCKET_COUNT cfg then int (BUCKET_COUNT cfg) - 1 else - 1)"
  using assms
proof (induction cfg v bs i rule: getBucketIndex_loop.induct)
  case (1 cfg v boundaries i)
  show ?case
  proof (cases "i < BUCKET_COUNT cfg")
    case True
    then have upt: "[i ..< BUCKET_COUNT cfg] = i # [i + 1 ..< BUCKET_COUNT cfg]"
      by (simp add: upt_conv_Cons)
    from True 1(2) have idx: "js_index boundaries i = Some (boundaries ! i)"
      "js_index boundaries (i + 1) = Some (boundaries ! (i + 1))"
      by (simp_all add: js_index_def)
    show ?thesis
    proof (cases "in_interval boundaries v i")
      case iv: True
      then show ?thesis using True idx upt
        by (subst getBucketIndex_loop.simps) (simp add: in_interval_def)
    next
      case iv: False
      then have neg: "\<not> (js_ge v (js_index boundaries i) \<and> js_lt v (js_index boundaries (i + 1)))"
        using idx by (simp add: in_interval_def)
      have step: "getBucketIndex_loop cfg v boundaries i = getBucketIndex_loop cfg v boundaries (i + 1)"
        using True neg by (subst getBucketIndex_loop.simps) auto
      show ?thesis
        unfolding step 1(1)[OF True neg 1(2)] using upt iv by simp
    qed
  next
    case False
    from 1(2) have "js_index boundaries (BUCKET_COUNT cfg) = Some (boundaries ! BUCKET_COUNT cfg)"
      by (simp add: js_index_def)
    then show ?thesis using False
      by (subst getBucketIndex_loop.simps) simp
  qed
qed

lemma getBucketIndex_loop_range:
  "getBucketIndex_loop cfg v bs i = - 1 \<or>
   (0 \<le> getBucketIndex_loop cfg v bs i \<and> getBucketIndex_loop cfg v bs i < int (BUCKET_COUNT cfg))"
proof (induction cfg v bs i rule: getBucketIndex_loop.induct)
  case (1 cfg v boundaries i)
  show ?case
    using 1 by (subst (1 2 3) getBucketIndex_loop.simps) auto
qed

lemma sorted_interval_unique:
  assumes "sorted bs" "i + 1 < length bs" "j + 1 < length bs"
    "in_interval bs v i" "in_interval bs v j"
  shows "i = j"
proof (rule ccontr)
  assume "i \<noteq> j"
  then consider "i + 1 \<le> j" | "j + 1 \<le> i" by linarith
  then show False
  proof cases
    case 1
    then have "bs ! (i + 1) \<le> bs ! j" using assms(1,3) by (simp add: sorted_nth_mono)
    then show False using assms(4,5) by (simp add: in_interval_def)
  next
    case 2
    then have "bs ! (j + 1) \<le> bs ! i" using assms(1,2) by (simp add: sorted_nth_mono)
    then show False using assms(4,5) by (simp add: in_interval_def)
  qed
qed

lemma sorted_interval_exists:
  assumes "bs ! 0 \<le> v" "v < bs ! n"
  shows "\<exists>i<n. in_interval bs v i"
  using assms
proof (induction n)
  case 0
  then show ?case by simp
next
  case (Suc n)
  show ?case
  proof (cases "v < bs ! n")
    case True
    with Suc obtain i where "i < n" "in_interval bs v i" by blast
    then show ?thesis using less_Suc_eq by blast
  next
    case False
    then have "in_interval bs v n" using Suc.prems by (simp add: in_interval_def)
    then show ?thesis by blast
  qed
qed

lemma interval_in_range:
  assumes "sorted bs" "length bs = n + 1" "i < n" "in_interval bs v i"
  shows "bs ! 0 \<le> v \<and> v < bs ! n"
proof -
  have "bs ! 0 \<le> bs ! i" using assms by (simp add: sorted_nth_mono)
  moreover have "bs ! (i + 1) \<le> bs ! n" using assms by (simp add: sorted_nth_mono)
  ultimately show ?thesis using assms(4) by (simp add: in_interval_def)
qed

text \<open>
  Claim C4. For a non-decreasing \<open>boundaries\<close> array of \<open>BUCKET_COUNT + 1\<close> cut points
  (with at least one bucket), \<open>getBucketIndex\<close> returns the first index \<open>i\<close> with
  \<open>boundaries[i] <= value < boundaries[i+1]\<close>; it returns the last index
  \<open>BUCKET_COUNT - 1\<close> when the value equals the final boundary, and \<open>-1\<close> (NONE) when
  no index satisfies the rule and the value is not the final boundary. Hence the result differs from \<open>-1\<close> exactly on the closed
  range from the first to the last boundary, and a value from the first boundary up to,
  but excluding, the last one satisfies the interval rule at exactly one index.
\<close>

theorem getBucketIndex_spec:
  assumes "sorted bs" and "length bs = BUCKET_COUNT cfg + 1" and "0 < BUCKET_COUNT cfg"
  shows "(\<forall>i. i < BUCKET_COUNT cfg \<and> in_interval bs v i \<and> (\<forall>k<i. \<not> in_interval bs v k)
              \<longrightarrow> getBucketIndex cfg v bs = int i) \<and>
         (v = bs ! BUCKET_COUNT cfg
              \<longrightarrow> getBucketIndex cfg v bs = int (BUCKET_COUNT cfg) - 1) \<and>
         ((\<forall>i<BUCKET_COUNT cfg. \<not> in_interval bs v i) \<and> v \<noteq> bs ! BUCKET_COUNT cfg
              \<longrightarrow> getBucketIndex cfg v bs = - 1) \<and>
         (getBucketIndex cfg v bs \<noteq> - 1 \<longleftrightarrow> bs ! 0 \<le> v \<and> v \<le> bs ! BUCKET_COUNT cfg) \<and>
         (bs ! 0 \<le> v \<and> v < bs ! BUCKET_COUNT cfg
              \<longrightarrow> (\<exists>!i. i < BUCKET_COUNT cfg \<and> in_interval bs v i))"
proof -
  let ?n = "BUCKET_COUNT cfg"
  let ?r = "getBucketIndex cfg v bs"
  have r: "?r = (case find (in_interval bs v) [0 ..< ?n] of
        Some k \<Rightarrow> int k
      | None \<Rightarrow> if v = bs ! ?n then int ?n - 1 else - 1)"
    unfolding getBucketIndex_def by (rule getBucketIndex_loop_find[OF assms(2)])
  have first: "?r = int i" if "i < ?n" "in_interval bs v i" "\<forall>k<i. \<not> in_interval bs v k" for i
  proof -
    have "find (in_interval bs v) [0 ..< ?n] = Some i"
      using that by (auto simp add: find_Some_iff intro!: exI[of _ i])
    then show ?thesis using r by simp
  qed
  have none: "find (in_interval bs v) [0 ..< ?n] = None" if "\<forall>i<?n. \<not> in_interval bs v i"
    using that by (simp add: find_None_iff)
  have last: "?r = int ?n - 1" if "v = bs ! ?n"
  proof -
    have "\<not> in_interval bs v i" if "i < ?n" for i
      using interval_in_range[OF assms(1,2) that, of v] \<open>v = bs ! ?n\<close> by auto
    then have "\<forall>i<?n. \<not> in_interval bs v i" by blast
    from none[OF this] that r show ?thesis by simp
  qed
  have out: "?r = - 1" if "\<forall>i<?n. \<not> in_interval bs v i" "v \<noteq> bs ! ?n"
    using none[OF that(1)] that(2) r by simp
  have total: "?r \<noteq> - 1 \<longleftrightarrow> bs ! 0 \<le> v \<and> v \<le> bs ! ?n"
  proof (cases "\<exists>i<?n. in_interval bs v i")
    case True
    then obtain i where i: "i < ?n" "in_interval bs v i" by blast
    then obtain k where "find (in_interval bs v) [0 ..< ?n] = Some k"
      by (cases "find (in_interval bs v) [0 ..< ?n]") (auto simp add: find_None_iff)
    then have "?r \<noteq> - 1" using r by simp
    moreover have "bs ! 0 \<le> v \<and> v < bs ! ?n"
      using interval_in_range[OF assms(1,2) i] .
    ultimately show ?thesis by simp
  next
    case False
    then have no: "\<forall>i<?n. \<not> in_interval bs v i" by blast
    have "\<not> (bs ! 0 \<le> v \<and> v < bs ! ?n)"
      using sorted_interval_exists[of bs v ?n] False by blast
    moreover have "bs ! 0 \<le> bs ! ?n" using assms(1,2) by (simp add: sorted_nth_mono)
    ultimately have "(bs ! 0 \<le> v \<and> v \<le> bs ! ?n) \<longleftrightarrow> v = bs ! ?n" by auto
    moreover have "?r \<noteq> - 1 \<longleftrightarrow> v = bs ! ?n"
      using none[OF no] r assms(3) by simp
    ultimately show ?thesis by simp
  qed
  have uniq: "\<exists>!i. i < ?n \<and> in_interval bs v i" if "bs ! 0 \<le> v \<and> v < bs ! ?n"
  proof -
    from that obtain i where i: "i < ?n" "in_interval bs v i"
      using sorted_interval_exists[of bs v ?n] by blast
    show ?thesis
    proof (rule ex1I[of _ i])
      show "i < ?n \<and> in_interval bs v i" using i by simp
    next
      fix j assume "j < ?n \<and> in_interval bs v j"
      then show "j = i"
        using sorted_interval_unique[OF assms(1) _ _ _ i(2), of j] i(1) assms(2) by simp
    qed
  qed
  show ?thesis using first last out total uniq by blast
qed

theorem getBucketIndex_spec_witness:
  "sorted [0, 10, 20, 30 :: real] \<and> length [0, 10, 20, 30 :: real] = BUCKET_COUNT CONFIG + 1 \<and>
   0 < BUCKET_COUNT CONFIG \<and> getBucketIndex CONFIG 10 [0, 10, 20, 30] = 1 \<and>
   getBucketIndex CONFIG 30 [0, 10, 20, 30] = 2 \<and>
   getBucketIndex CONFIG 31 [0, 10, 20, 30] = - 1"
proof -
  have h: "sorted [0, 10, 20, 30 :: real]" "length [0, 10, 20, 30 :: real] = BUCKET_COUNT CONFIG + 1"
    "0 < BUCKET_COUNT CONFIG" by (simp_all add: CONFIG_def)
  have n: "BUCKET_COUNT CONFIG = 3" by (simp add: CONFIG_def)
  have p: "(1::nat) < BUCKET_COUNT CONFIG \<and> in_interval [0, 10, 20, 30] 10 1 \<and>
      (\<forall>k<1. \<not> in_interval [0, 10, 20, 30] 10 k)"
    by (simp add: n in_interval_def)
  have "\<forall>i. i < BUCKET_COUNT CONFIG \<and> in_interval [0, 10, 20, 30] 10 i \<and>
      (\<forall>k<i. \<not> in_interval [0, 10, 20, 30] 10 k) \<longrightarrow> getBucketIndex CONFIG 10 [0, 10, 20, 30] = int i"
    using getBucketIndex_spec[OF h, of 10] by (rule conjunct1)
  then have a: "getBucketIndex CONFIG 10 [0, 10, 20, 30] = int 1"
    using p by blast
  have "(getBucketIndex CONFIG 31 [0, 10, 20, 30] \<noteq> - 1) =
     ([0, 10, 20, 30] ! 0 \<le> (31::real) \<and> (31::real) \<le> [0, 10, 20, 30] ! BUCKET_COUNT CONFIG)"
    using getBucketIndex_spec[OF h, of 31] by blast
  then have b: "getBucketIndex CONFIG 31 [0, 10, 20, 30] = - 1"
    by (simp add: n)
  have "(30::real) = [0, 10, 20, 30] ! BUCKET_COUNT CONFIG \<longrightarrow>
      getBucketIndex CONFIG 30 [0, 10, 20, 30] = int (BUCKET_COUNT CONFIG) - 1"
    using getBucketIndex_spec[OF h, of 30] by blast
  then have c: "getBucketIndex CONFIG 30 [0, 10, 20, 30] = 2"
    by (simp add: n)
  show ?thesis using h a b c by simp
qed

subsection \<open>Aggregator\<close>

lemma sort_unique:
  assumes "sorted s" and "mset s = mset xs"
  shows "sort xs = s"
  using assms by (simp add: properties_for_sort)

lemma median_sort: "xs \<noteq> [] \<Longrightarrow> median xs = Some (central (sort xs))"
  by (simp add: median_def central_def Let_def even_iff_mod_2_eq_zero)

lemma median_mset:
  assumes "mset ys = mset xs"
  shows "median ys = median xs"
proof -
  have "sort ys = sort xs"
    using assms by (simp add: properties_for_sort)
  moreover have "length ys = length xs"
    using assms by (rule mset_eq_length)
  ultimately show ?thesis by (simp add: median_def)
qed

text \<open>
  Claim C5. For a non-empty list, \<open>median\<close> is the even/odd rule applied to the
  ascending arrangement of its values (the average of the two central elements for
  an even length, the central element for an odd one), so it is the same for every
  reordering of the input; \<open>median [100, 200, 300] = 200\<close>,
  \<open>median [100, 200, 300, 400] = 250\<close>, and the median of the empty list is absent
  (\<open>null\<close>), which is not the number zero.
\<close>

theorem median_spec:
  assumes "xs \<noteq> []" and "sorted s" and "mset s = mset xs" and "mset ys = mset xs"
  shows "median xs = Some (central s) \<and> median ys = median xs \<and>
         median [] = None \<and> median [] \<noteq> Some 0 \<and>
         median [100, 200, 300] = Some 200 \<and> median [100, 200, 300, 400] = Some 250"
proof -
  have "median xs = Some (central s)"
    using median_sort[OF assms(1)] sort_unique[OF assms(2,3)] by simp
  moreover have "median ys = median xs"
    using assms(4) by (rule median_mset)
  moreover have "median [] = None" by (simp add: median_def)
  moreover have "median [100, 200, 300] = Some 200"
    by (simp add: median_def)
  moreover have "median [100, 200, 300, 400] = Some 250"
    by (simp add: median_def)
  ultimately show ?thesis by simp
qed

theorem median_spec_witness:
  "[300, 100, 200 :: real] \<noteq> [] \<and> sorted [100, 200, 300 :: real] \<and>
   mset [100, 200, 300 :: real] = mset [300, 100, 200] \<and>
   mset [200, 300, 100 :: real] = mset [300, 100, 200] \<and>
   median [300, 100, 200] = Some 200 \<and> median [200, 300, 100] = Some 200"
proof -
  have h: "[300, 100, 200 :: real] \<noteq> []" "sorted [100, 200, 300 :: real]"
    "mset [100, 200, 300 :: real] = mset [300, 100, 200]"
    "mset [200, 300, 100 :: real] = mset [300, 100, 200]"
    by (simp_all add: add.commute add.left_commute)
  have "median [300, 100, 200] = Some (central [100, 200, 300]) \<and>
        median [200, 300, 100] = median [300, 100, 200]"
    using median_spec[OF h] by simp
  moreover have "central [100, 200, 300] = 200" by (simp add: central_def)
  ultimately show ?thesis using h by simp
qed

subsection \<open>Index safety\<close>

lemma push_point_ok:
  assumes "grid_ok n bs" and "0 \<le> r" and "r < int n" and "0 \<le> l" and "l < int n"
  shows "\<exists>bs'. push_point bs r l p = Inr bs' \<and> grid_ok n bs'"
proof -
  from assms have r: "nat r < length bs" by (simp add: grid_ok_def)
  then have "bs ! nat r \<in> set bs" by simp
  with assms have l: "nat l < length (bs ! nat r)"
    by (simp add: grid_ok_def list_all_iff)
  have "grid_ok n (bs[nat r := (bs ! nat r)[nat l := b]])" for b
    using assms(1) r l
    by (auto simp add: grid_ok_def list_all_iff dest!: set_update_subset_insert[THEN subsetD])
  then show ?thesis
    using assms r l by (simp add: push_point_def js_index_int_def grid_ok_def)
qed

lemma assignToBuckets_loop_ok:
  assumes "grid_ok (BUCKET_COUNT cfg) bs"
  shows "\<exists>bs'. assignToBuckets_loop cfg rb lb ps bs = Inr bs' \<and> grid_ok (BUCKET_COUNT cfg) bs'"
  using assms
proof (induction ps arbitrary: bs)
  case Nil
  then show ?case by simp
next
  case (Cons p ps)
  let ?r = "getBucketIndex cfg (rpm p) rb" and ?l = "getBucketIndex cfg (load p) lb"
  show ?case
  proof (cases "?r \<noteq> - 1 \<and> ?l \<noteq> - 1")
    case True
    then have "0 \<le> ?r \<and> ?r < int (BUCKET_COUNT cfg)" "0 \<le> ?l \<and> ?l < int (BUCKET_COUNT cfg)"
      using getBucketIndex_loop_range[of cfg "rpm p" rb 0]
        getBucketIndex_loop_range[of cfg "load p" lb 0]
      by (simp_all add: getBucketIndex_def)
    then obtain bs' where bs': "push_point bs ?r ?l p = Inr bs'" "grid_ok (BUCKET_COUNT cfg) bs'"
      using push_point_ok[OF Cons.prems, of ?r ?l p] by blast
    from Cons.IH[OF bs'(2)] show ?thesis
      using True bs'(1) by (simp add: Let_def)
  next
    case False
    from Cons.IH[OF Cons.prems] show ?thesis
      using False by (auto simp add: Let_def)
  qed
qed

subsection \<open>Delay Detector\<close>

lemma findDelays_inner_find:
  "findDelays_inner cfg d i dir j =
     (case find (\<lambda>k. sgn (lambda (d ! k) - lambda (d ! i)) = dir \<and>
                     \<bar>lambda (d ! k) - lambda (d ! i)\<bar> \<ge> LAMBDA_CHANGE_THRESHOLD cfg \<and>
                     (time (d ! k) - time (d ! i)) * 1000 \<le> MAX_DELAY_MS cfg)
                [j ..< min (i + 100) (length d)] of
        None \<Rightarrow> None
      | Some k \<Rightarrow> Some ((time (d ! k) - time (d ! i)) * 1000))"
proof (induction cfg d i dir j rule: findDelays_inner.induct)
  case (1 cfg d i dir j)
  show ?case
  proof (cases "j < min (i + 100) (length d)")
    case True
    then have upt: "[j ..< min (i + 100) (length d)] = j # [j + 1 ..< min (i + 100) (length d)]"
      by (simp add: upt_conv_Cons)
    show ?thesis
    proof (cases "sgn (lambda (d ! j) - lambda (d ! i)) = dir \<and>
                  \<bar>lambda (d ! j) - lambda (d ! i)\<bar> \<ge> LAMBDA_CHANGE_THRESHOLD cfg \<and>
                  (time (d ! j) - time (d ! i)) * 1000 \<le> MAX_DELAY_MS cfg")
      case hit: True
      then show ?thesis using True
        by (subst findDelays_inner.simps) (simp add: upt Let_def)
    next
      case miss: False
      have step: "findDelays_inner cfg d i dir j = findDelays_inner cfg d i dir (j + 1)"
        using True miss by (subst findDelays_inner.simps) (auto simp add: Let_def)
      show ?thesis
        unfolding step 1[OF True refl refl refl refl miss] using miss by (auto simp add: upt)
    qed
  next
    case False
    then have "min (i + 100) (length d) \<le> j" by linarith
    then have "[j ..< min (i + 100) (length d)] = []" by simp
    then show ?thesis using False
      by (subst findDelays_inner.simps) auto
  qed
qed

lemma findDelays_inner_event:
  "(if \<bar>pw (d ! i) - pw (d ! (i - 1))\<bar> < PW_CHANGE_THRESHOLD cfg then None
    else findDelays_inner cfg d i (- sgn (pw (d ! i) - pw (d ! (i - 1)))) (i + 1)) = spec_event cfg d i"
proof -
  have "qualifies cfg d i = (\<lambda>k. sgn (lambda (d ! k) - lambda (d ! i)) = - sgn (pw (d ! i) - pw (d ! (i - 1))) \<and>
                     \<bar>lambda (d ! k) - lambda (d ! i)\<bar> \<ge> LAMBDA_CHANGE_THRESHOLD cfg \<and>
                     (time (d ! k) - time (d ! i)) * 1000 \<le> MAX_DELAY_MS cfg)"
    by (rule ext) (simp add: qualifies_def)
  then show ?thesis
    unfolding findDelays_inner_find spec_event_def by simp
qed

lemma findDelays_outer_spec:
  "findDelays_outer cfg d i delays = delays @ List.map_filter (spec_event cfg d) [i ..< length d - 1]"
proof (induction cfg d i delays rule: findDelays_outer.induct)
  case (1 cfg d i delays)
  show ?case
  proof (cases "int i < int (length d) - 1")
    case True
    then have lt: "i < length d - 1" by linarith
    then have upt: "[i ..< length d - 1] = i # [i + 1 ..< length d - 1]"
      by (simp add: upt_conv_Cons)
    let ?pwChange = "pw (d ! i) - pw (d ! (i - 1))"
    show ?thesis
    proof (cases "\<bar>?pwChange\<bar> < PW_CHANGE_THRESHOLD cfg")
      case small: True
      then have ev: "spec_event cfg d i = None" by (simp add: spec_event_def)
      have "findDelays_outer cfg d i delays = findDelays_outer cfg d (i + 1) delays"
        using True small by (subst findDelays_outer.simps) (simp add: Let_def)
      also have "\<dots> = delays @ List.map_filter (spec_event cfg d) [i + 1 ..< length d - 1]"
        using 1(1)[OF True refl refl refl small] .
      finally show ?thesis unfolding upt by (simp add: ev)
    next
      case big: False
      then have ev: "findDelays_inner cfg d i (- sgn ?pwChange) (i + 1) = spec_event cfg d i"
        using findDelays_inner_event[of d i cfg] by simp
      show ?thesis
      proof (cases "spec_event cfg d i")
        case None
        have "findDelays_outer cfg d i delays = findDelays_outer cfg d (i + 1) delays"
          using True big ev None by (subst findDelays_outer.simps) (simp add: Let_def)
        also have "\<dots> = delays @ List.map_filter (spec_event cfg d) [i + 1 ..< length d - 1]"
          using 1(2)[OF True refl refl refl big] ev None by simp
        finally show ?thesis unfolding upt by (simp add: None)
      next
        case (Some t)
        have "findDelays_outer cfg d i delays = findDelays_outer cfg d (i + 1) (delays @ [t])"
          using True big ev Some by (subst findDelays_outer.simps) (simp add: Let_def)
        also have "\<dots> = (delays @ [t]) @ List.map_filter (spec_event cfg d) [i + 1 ..< length d - 1]"
          using 1(3)[OF True refl refl refl big, of t] ev Some by simp
        finally show ?thesis unfolding upt by (simp add: Some)
      qed
    qed
  next
    case False
    then have "\<not> i < length d - 1" by linarith
    then have "[i ..< length d - 1] = []" by simp
    then show ?thesis using False
      by (subst findDelays_outer.simps) (simp add: List.map_filter_def)
  qed
qed

lemma findDelaysInSequence_sorted: "findDelaysInSequence cfg d = spec_delays cfg (sort_key time d)"
  by (simp add: findDelaysInSequence_def spec_delays_def findDelays_outer_spec)

lemma length_map_filter_le: "length (List.map_filter f xs) \<le> length xs"
  by (induction xs) (auto simp add: List.map_filter_def le_SucI)

text \<open>
  Claim C1. On a sample list sorted ascending by time (the detector sorts its input
  itself, stably, so the result on any list is the result on its sorted arrangement),
  \<open>findDelaysInSequence\<close> goes through the indices \<open>i = 1, \<dots>, n - 2\<close> in order.
  An index with \<open>|pw[i] - pw[i-1]| < PW_CHANGE_THRESHOLD\<close> yields nothing. Any other
  index yields \<open>(time[j] - time[i]) * 1000\<close> for the first \<open>j\<close> of the window
  \<open>i + 1 \<le> j < min (i + 100) n\<close> whose lambda change has the sign \<open>- sign (pw[i] - pw[i-1])\<close>,
  is at least \<open>LAMBDA_CHANGE_THRESHOLD\<close> in absolute value and whose time difference
  is at most \<open>MAX_DELAY_MS\<close>, and nothing when the window has no such \<open>j\<close>. So each
  event gives at most one measurement, and there are at most \<open>n - 2\<close> of them.
\<close>

theorem findDelaysInSequence_spec:
  "findDelaysInSequence cfg d = spec_delays cfg (sort_key time d) \<and>
   (sorted (map time d) \<longrightarrow> findDelaysInSequence cfg d = spec_delays cfg d) \<and>
   length (findDelaysInSequence cfg d) \<le> length d - 2"
proof -
  have a: "findDelaysInSequence cfg d = spec_delays cfg (sort_key time d)"
    by (rule findDelaysInSequence_sorted)
  have b: "findDelaysInSequence cfg d = spec_delays cfg d" if "sorted (map time d)"
    using a sort_key_id_if_sorted[OF that] by simp
  have "length (spec_delays cfg (sort_key time d)) \<le> length [1 ..< length (sort_key time d) - 1]"
    unfolding spec_delays_def by (rule length_map_filter_le)
  then have c: "length (findDelaysInSequence cfg d) \<le> length d - 2"
    using a by simp
  show ?thesis using a b c by blast
qed

lemma scenario_c_event: "spec_delays recommended scenario_c = [180]"
  by (simp add: spec_delays_def spec_event_def qualifies_def List.map_filter_def
      scenario_c_def mk_sample_def recommended_def)

theorem findDelaysInSequence_spec_witness:
  "sorted (map time scenario_c) \<and> findDelaysInSequence recommended scenario_c = [180]"
proof -
  have h: "sorted (map time scenario_c)"
    by (simp add: scenario_c_def mk_sample_def)
  have "findDelaysInSequence recommended scenario_c = spec_delays recommended scenario_c"
    using findDelaysInSequence_spec[of recommended scenario_c] h by blast
  then show ?thesis using h scenario_c_event by simp
qed

lemma find_Some_mem: "find P xs = Some x \<Longrightarrow> P x \<and> x \<in> set xs"
  by (induction xs) (auto split: if_splits)

lemma spec_event_SomeD:
  assumes "spec_event cfg d i = Some t"
  shows "\<exists>j. i < j \<and> j < length d \<and> t = (time (d ! j) - time (d ! i)) * 1000 \<and> t \<le> MAX_DELAY_MS cfg"
proof -
  from assms obtain j where j: "find (qualifies cfg d i) [i + 1 ..< min (i + 100) (length d)] = Some j"
    and t: "t = (time (d ! j) - time (d ! i)) * 1000"
    by (auto simp add: spec_event_def split: if_splits option.splits)
  from j have "qualifies cfg d i j" and "j \<in> set [i + 1 ..< min (i + 100) (length d)]"
    by (auto dest: find_Some_mem)
  then have "i < j" "j < length d" "(time (d ! j) - time (d ! i)) * 1000 \<le> MAX_DELAY_MS cfg"
    by (simp_all add: qualifies_def)
  then show ?thesis using t by blast
qed

lemma spec_delays_memD:
  assumes "t \<in> set (spec_delays cfg d)"
  shows "\<exists>i j. i < j \<and> j < length d \<and> t = (time (d ! j) - time (d ! i)) * 1000 \<and> t \<le> MAX_DELAY_MS cfg"
proof -
  from assms obtain i where "spec_event cfg d i = Some t"
    by (auto simp add: spec_delays_def List.map_filter_def)
  from spec_event_SomeD[OF this] show ?thesis by blast
qed

lemma distinct_map_sort_key: "distinct (map f (sort_key f xs)) = distinct (map f xs)"
proof -
  have "mset (map f (sort_key f xs)) = mset (map f xs)" by simp
  then show ?thesis by (rule mset_eq_imp_distinct_iff)
qed

text \<open>
  Claim C2, as the code has it. Every delay measurement the detector emits
  satisfies \<open>0 \<le> timeDiffMs \<le> MAX_DELAY_MS\<close>; it is strictly positive whenever
  the time stamps of the samples are pairwise distinct.
\<close>

theorem findDelaysInSequence_bounds:
  "(\<forall>t \<in> set (findDelaysInSequence cfg d). 0 \<le> t \<and> t \<le> MAX_DELAY_MS cfg) \<and>
   (distinct (map time d) \<longrightarrow> (\<forall>t \<in> set (findDelaysInSequence cfg d). 0 < t))"
proof -
  let ?s = "sort_key time d"
  have srt: "sorted (map time ?s)" by (rule sorted_sort_key)
  have key: "\<exists>i j. i < j \<and> j < length ?s \<and> t = (time (?s ! j) - time (?s ! i)) * 1000 \<and>
      t \<le> MAX_DELAY_MS cfg \<and> time (?s ! i) \<le> time (?s ! j)"
    if "t \<in> set (findDelaysInSequence cfg d)" for t
  proof -
    from that have "t \<in> set (spec_delays cfg ?s)"
      by (simp add: findDelaysInSequence_sorted)
    from spec_delays_memD[OF this] obtain i j where ij: "i < j" "j < length ?s"
      "t = (time (?s ! j) - time (?s ! i)) * 1000" "t \<le> MAX_DELAY_MS cfg" by blast
    have "map time ?s ! i \<le> map time ?s ! j"
      using srt ij(1,2) by (intro sorted_nth_mono) simp_all
    then have "time (?s ! i) \<le> time (?s ! j)" using ij(1,2) by simp
    with ij show ?thesis by blast
  qed
  have a: "0 \<le> t \<and> t \<le> MAX_DELAY_MS cfg" if "t \<in> set (findDelaysInSequence cfg d)" for t
    using key[OF that] by auto
  have b: "0 < t" if dist: "distinct (map time d)" and mem: "t \<in> set (findDelaysInSequence cfg d)" for t
  proof -
    from key[OF mem] obtain i j where ij: "i < j" "j < length ?s"
      "t = (time (?s ! j) - time (?s ! i)) * 1000" "time (?s ! i) \<le> time (?s ! j)" by blast
    from dist have "distinct (map time ?s)" by (simp add: distinct_map_sort_key)
    then have "(map time ?s ! i = map time ?s ! j) = (i = j)"
      using ij(1,2) by (intro nth_eq_iff_index_eq) simp_all
    then have "map time ?s ! i \<noteq> map time ?s ! j"
      using ij(1) by simp
    then have "time (?s ! i) \<noteq> time (?s ! j)" using ij(1,2) by simp
    with ij(3,4) show ?thesis by simp
  qed
  show ?thesis using a b by blast
qed

lemma scenario_c_distinct: "distinct (map time scenario_c)"
  by (simp add: scenario_c_def mk_sample_def)

theorem findDelaysInSequence_bounds_witness:
  "distinct (map time scenario_c) \<and> findDelaysInSequence recommended scenario_c = [180] \<and>
   (0::real) < 180 \<and> (180::real) \<le> MAX_DELAY_MS recommended"
proof -
  have "sorted (map time scenario_c)"
    by (simp add: scenario_c_def mk_sample_def)
  then have "sort_key time scenario_c = scenario_c"
    by (rule sort_key_id_if_sorted)
  then have r: "findDelaysInSequence recommended scenario_c = [180]"
    by (simp add: findDelaysInSequence_sorted scenario_c_event)
  have "\<forall>t \<in> set (findDelaysInSequence recommended scenario_c). 0 < t \<and> t \<le> MAX_DELAY_MS recommended"
    using findDelaysInSequence_bounds[of recommended scenario_c] scenario_c_distinct by blast
  then show ?thesis using r scenario_c_distinct by simp
qed

lemma tie_samples_sorted: "sorted (map time tie_samples)"
  by (simp add: tie_samples_def mk_sample_def)

lemma tie_samples_delays: "spec_delays CONFIG tie_samples = [0]"
  by (simp add: spec_delays_def spec_event_def qualifies_def List.map_filter_def
      tie_samples_def mk_sample_def CONFIG_def)

theorem findDelaysInSequence_zero_counterexample:
  "sorted (map time tie_samples) \<and> length tie_samples = 10 \<and>
   findDelaysInSequence CONFIG tie_samples = [0] \<and>
   bucket_delays (calculateDelays_bucket CONFIG \<lparr>bucket_data = tie_samples, bucket_delays = []\<rparr>) = [0] \<and>
   (0::real) \<in> set (findDelaysInSequence CONFIG tie_samples) \<and> \<not> (0::real) < 0"
proof -
  have r: "findDelaysInSequence CONFIG tie_samples = [0]"
    using tie_samples_sorted tie_samples_delays
    by (simp add: findDelaysInSequence_sorted sort_key_id_if_sorted)
  have l: "length tie_samples = 10" by (simp add: tie_samples_def)
  show ?thesis using r l tie_samples_sorted by (simp add: calculateDelays_bucket_def)
qed

subsection \<open>Nearest-timestamp search, linear\<close>

lemma nearest_scan_inv:
  assumes "i \<le> length d"
    and "(m = Infinity \<and> c = - 1 \<and> i = 0) \<or>
         (\<exists>x. m = Num x \<and> 0 \<le> c \<and> nat c < i \<and> x = \<bar>time (d ! nat c) - t\<bar> \<and>
              (\<forall>k<i. x \<le> \<bar>time (d ! k) - t\<bar>) \<and> (\<forall>k<nat c. x < \<bar>time (d ! k) - t\<bar>))"
  shows "(d = [] \<and> nearest_scan d t i c m = (- 1, Infinity)) \<or>
         (\<exists>c' x. nearest_scan d t i c m = (int c', Num x) \<and> c' < length d \<and>
              x = \<bar>time (d ! c') - t\<bar> \<and>
              (\<forall>k<length d. x \<le> \<bar>time (d ! k) - t\<bar>) \<and> (\<forall>k<c'. x < \<bar>time (d ! k) - t\<bar>))"
  using assms
proof (induction d t i c m rule: nearest_scan.induct)
  case (1 d t i c m)
  let ?td = "\<bar>time (d ! i) - t\<bar>"
  show ?case
  proof (cases "i < length d")
    case True
    show ?thesis
    proof (cases "lt_inf ?td m")
      case lt: True
      have step: "nearest_scan d t i c m = nearest_scan d t (i + 1) (int i) (Num ?td)"
        using True lt by (subst nearest_scan.simps) (simp add: Let_def)
      have below: "\<forall>k<i. ?td < \<bar>time (d ! k) - t\<bar>"
      proof (cases m)
        case Infinity
        with 1(4) have "i = 0" by auto
        then show ?thesis by simp
      next
        case (Num x)
        with lt have "?td < x" by simp
        moreover from Num 1(4) have "\<forall>k<i. x \<le> \<bar>time (d ! k) - t\<bar>" by auto
        ultimately show ?thesis by fastforce
      qed
      then have "\<forall>k<i + 1. ?td \<le> \<bar>time (d ! k) - t\<bar>"
        by (auto simp add: less_Suc_eq intro: less_imp_le)
      with below have inv: "(Num ?td = Infinity \<and> int i = - 1 \<and> i + 1 = 0) \<or>
         (\<exists>x. Num ?td = Num x \<and> 0 \<le> int i \<and> nat (int i) < i + 1 \<and> x = \<bar>time (d ! nat (int i)) - t\<bar> \<and>
              (\<forall>k<i + 1. x \<le> \<bar>time (d ! k) - t\<bar>) \<and> (\<forall>k<nat (int i). x < \<bar>time (d ! k) - t\<bar>))"
        by simp
      have "i + 1 \<le> length d" using True by simp
      from 1(1)[OF True refl lt this inv] show ?thesis unfolding step .
    next
      case ge: False
      have step: "nearest_scan d t i c m = nearest_scan d t (i + 1) c m"
        using True ge by (subst nearest_scan.simps) (simp add: Let_def)
      from ge obtain x where m: "m = Num x" and x: "x \<le> ?td"
        by (cases m) auto
      with 1(4) have old: "0 \<le> c" "nat c < i" "x = \<bar>time (d ! nat c) - t\<bar>"
        "\<forall>k<i. x \<le> \<bar>time (d ! k) - t\<bar>" "\<forall>k<nat c. x < \<bar>time (d ! k) - t\<bar>"
        by auto
      from old(4) x have "\<forall>k<i + 1. x \<le> \<bar>time (d ! k) - t\<bar>"
        by (auto simp add: less_Suc_eq)
      with m old have inv: "(m = Infinity \<and> c = - 1 \<and> i + 1 = 0) \<or>
         (\<exists>x. m = Num x \<and> 0 \<le> c \<and> nat c < i + 1 \<and> x = \<bar>time (d ! nat c) - t\<bar> \<and>
              (\<forall>k<i + 1. x \<le> \<bar>time (d ! k) - t\<bar>) \<and> (\<forall>k<nat c. x < \<bar>time (d ! k) - t\<bar>))"
        by auto
      have "i + 1 \<le> length d" using True by simp
      from 1(2)[OF True refl ge this inv] show ?thesis unfolding step .
    qed
  next
    case False
    with 1(3) have i: "i = length d" by simp
    have res: "nearest_scan d t i c m = (c, m)"
      using False by (subst nearest_scan.simps) simp
    show ?thesis
    proof (cases m)
      case Infinity
      with 1(4) i have "d = []" "c = - 1" by auto
      then show ?thesis using res Infinity by simp
    next
      case (Num x)
      with 1(4) have old: "0 \<le> c" "nat c < i" "x = \<bar>time (d ! nat c) - t\<bar>"
        "\<forall>k<i. x \<le> \<bar>time (d ! k) - t\<bar>" "\<forall>k<nat c. x < \<bar>time (d ! k) - t\<bar>"
        by auto
      have "nearest_scan d t i c m = (int (nat c), Num x)"
        using res Num old(1) by simp
      then show ?thesis using old i by blast
    qed
  qed
qed

lemma nearest_scan_result:
  "(d = [] \<and> nearest_scan d t 0 (- 1) Infinity = (- 1, Infinity)) \<or>
   (\<exists>c x. nearest_scan d t 0 (- 1) Infinity = (int c, Num x) \<and> c < length d \<and>
        x = \<bar>time (d ! c) - t\<bar> \<and>
        (\<forall>k<length d. x \<le> \<bar>time (d ! k) - t\<bar>) \<and> (\<forall>k<c. x < \<bar>time (d ! k) - t\<bar>))"
  by (rule nearest_scan_inv) simp_all

lemma Min_dist_eq:
  assumes "c < length d" and "\<forall>k<length d. \<bar>time (d ! c) - t\<bar> \<le> \<bar>time (d ! k) - t\<bar>"
  shows "Min ((\<lambda>s. \<bar>time s - t\<bar>) ` set d) = \<bar>time (d ! c) - t\<bar>"
proof (rule Min_eqI)
  show "finite ((\<lambda>s. \<bar>time s - t\<bar>) ` set d)" by simp
  show "\<bar>time (d ! c) - t\<bar> \<le> y" if "y \<in> (\<lambda>s. \<bar>time s - t\<bar>) ` set d" for y
    using that assms(2) by (auto simp add: in_set_conv_nth)
  show "\<bar>time (d ! c) - t\<bar> \<in> (\<lambda>s. \<bar>time s - t\<bar>) ` set d"
    using assms(1) by simp
qed

lemma within_tolerance_nearest:
  "within_tolerance (nearest_scan d t 0 (- 1) Infinity) = nearest_within d t"
proof -
  consider (empty) "d = []" "nearest_scan d t 0 (- 1) Infinity = (- 1, Infinity)"
    | (found) c x where "nearest_scan d t 0 (- 1) Infinity = (int c, Num x)" "c < length d"
        "x = \<bar>time (d ! c) - t\<bar>" "\<forall>k<length d. x \<le> \<bar>time (d ! k) - t\<bar>"
    using nearest_scan_result[of d t] by blast
  then show ?thesis
  proof cases
    case empty
    then show ?thesis by (simp add: nearest_within_def)
  next
    case found
    then have "Min ((\<lambda>s. \<bar>time s - t\<bar>) ` set d) = x"
      using Min_dist_eq[of c d t] by simp
    moreover have "d \<noteq> []" using found(2) by auto
    ultimately show ?thesis using found(1) by (simp add: nearest_within_def)
  qed
qed

subsection \<open>Validator, one sample\<close>

lemma accuracy_list_push:
  "accuracy_list (push_lambda be k x) k' =
     (if k' = k then accuracy_list be k @ [x] else accuracy_list be k')"
  by (simp add: accuracy_list_def push_lambda_def update_conv')

lemma grid_cell:
  assumes "grid_ok n g" and "0 \<le> r" and "r < int n" and "0 \<le> l" and "l < int n"
  shows "js_index_int g r = Some (g ! nat r) \<and> js_index_int (g ! nat r) l = Some (g ! nat r ! nat l)"
proof -
  from assms have r: "nat r < length g" by (simp add: grid_ok_def)
  then have "g ! nat r \<in> set g" by simp
  with assms have "length (g ! nat r) = n" by (simp add: grid_ok_def list_all_iff)
  then show ?thesis using assms r by (simp add: js_index_int_def grid_ok_def)
qed

lemma getBucketIndex_range:
  "getBucketIndex cfg v bs = - 1 \<or>
   (0 \<le> getBucketIndex cfg v bs \<and> getBucketIndex cfg v bs < int (BUCKET_COUNT cfg))"
  unfolding getBucketIndex_def by (rule getBucketIndex_loop_range)

text \<open>
  One iteration of the Validator's loop on a \<open>BUCKET_COUNT \<times> BUCKET_COUNT\<close> delay table,
  by the three cases of the sample's bucket and table cell.
\<close>

lemma validate_point_cases:
  assumes "grid_ok (BUCKET_COUNT (config a)) delayTable"
  shows "let r = getBucketIndex (config a) (rpm p) (rpmBoundaries a);
             l = getBucketIndex (config a) (load p) (loadBoundaries a)
         in (r = - 1 \<or> l = - 1 \<longrightarrow> validate_point a delayTable be p = Inr be) \<and>
            (r \<noteq> - 1 \<and> l \<noteq> - 1 \<and> delayTable ! nat r ! nat l = None \<longrightarrow>
               validate_point a delayTable be p = Inr be) \<and>
            (\<forall>delay. r \<noteq> - 1 \<and> l \<noteq> - 1 \<and> delayTable ! nat r ! nat l = Some delay \<longrightarrow>
               (\<exists>be'. validate_point a delayTable be p = Inr be' \<and>
                  (\<forall>k. accuracy_list be' k =
                     (if k = (r, l) \<and> nearest_within (data a) (time p - delay / 1000)
                      then accuracy_list be k @ [lambda p] else accuracy_list be k))))"
proof -
  define r where "r = getBucketIndex (config a) (rpm p) (rpmBoundaries a)"
  define l where "l = getBucketIndex (config a) (load p) (loadBoundaries a)"
  have skip: "validate_point a delayTable be p = Inr be" if "r = - 1 \<or> l = - 1"
    using that by (auto simp add: validate_point_def r_def l_def Let_def)
  have cell: "js_index_int delayTable r = Some (delayTable ! nat r) \<and>
      js_index_int (delayTable ! nat r) l = Some (delayTable ! nat r ! nat l)"
    if "r \<noteq> - 1" "l \<noteq> - 1"
  proof -
    have "0 \<le> r \<and> r < int (BUCKET_COUNT (config a))" "0 \<le> l \<and> l < int (BUCKET_COUNT (config a))"
      using that getBucketIndex_range[of "config a" "rpm p" "rpmBoundaries a"]
        getBucketIndex_range[of "config a" "load p" "loadBoundaries a"]
      by (simp_all add: r_def l_def)
    then show ?thesis using grid_cell[OF assms, of r l] by simp
  qed
  have null: "validate_point a delayTable be p = Inr be"
    if "r \<noteq> - 1" "l \<noteq> - 1" "delayTable ! nat r ! nat l = None"
    using that cell[OF that(1,2)]
    by (simp add: validate_point_def r_def[symmetric] l_def[symmetric] Let_def)
  have some: "\<exists>be'. validate_point a delayTable be p = Inr be' \<and>
      (\<forall>k. accuracy_list be' k =
         (if k = (r, l) \<and> nearest_within (data a) (time p - delay / 1000)
          then accuracy_list be k @ [lambda p] else accuracy_list be k))"
    if "r \<noteq> - 1" "l \<noteq> - 1" "delayTable ! nat r ! nat l = Some delay" for delay
  proof (cases "nearest_within (data a) (time p - delay / 1000)")
    case True
    then have "validate_point a delayTable be p = Inr (push_lambda be (r, l) (lambda p))"
      using that cell[OF that(1,2)]
      by (simp add: validate_point_def r_def[symmetric] l_def[symmetric] Let_def
          within_tolerance_nearest)
    then show ?thesis using True by (simp add: accuracy_list_push)
  next
    case False
    then have "validate_point a delayTable be p = Inr be"
      using that cell[OF that(1,2)]
      by (simp add: validate_point_def r_def[symmetric] l_def[symmetric] Let_def
          within_tolerance_nearest)
    then show ?thesis using False by simp
  qed
  show ?thesis
    unfolding Let_def r_def[symmetric] l_def[symmetric]
    using skip null some by blast
qed

lemma demo_rpm_bucket: "getBucketIndex CONFIG 1000 [500, 1000, 2000, 3000] = 1"
  by (simp add: getBucketIndex_def getBucketIndex_loop.simps CONFIG_def js_index_def)

lemma demo_load_bucket: "getBucketIndex CONFIG 50 [10, 30, 50, 90] = 2"
  by (simp add: getBucketIndex_def getBucketIndex_loop.simps CONFIG_def js_index_def)

lemma demo_nearest: "nearest_within (data demo_analyzer) (2 / 10 - 100 / 1000)"
  by (simp add: nearest_within_def demo_analyzer_def mk_sample_def)

subsection \<open>Validator, statistics\<close>

lemma foldl_add_sum: "foldl (\<lambda>a b. a + f b) (z::real) xs = z + (\<Sum>x\<leftarrow>xs. f x)"
  by (induction xs arbitrary: z) simp_all






lemma validate_point_target:
  "validate_point a delayTable be p = Inl TypeError \<or>
   validate_point a delayTable be p =
     Inr (case target_of a delayTable p of
            None \<Rightarrow> be
          | Some t \<Rightarrow> if nearest_within (data a) t
                      then push_lambda be (getBucketIndex (config a) (rpm p) (rpmBoundaries a),
                                           getBucketIndex (config a) (load p) (loadBoundaries a)) (lambda p)
                      else be)"
  by (auto simp add: validate_point_def target_of_def Let_def within_tolerance_nearest
      split: option.splits)





lemma validate_point_ok:
  assumes "grid_ok (BUCKET_COUNT (config a)) delayTable"
  shows "\<exists>be'. validate_point a delayTable be p = Inr be'"
proof -
  let ?r = "getBucketIndex (config a) (rpm p) (rpmBoundaries a)"
  let ?l = "getBucketIndex (config a) (load p) (loadBoundaries a)"
  show ?thesis
  proof (cases "?r = - 1 \<or> ?l = - 1")
    case True
    then show ?thesis by (auto simp add: validate_point_def Let_def)
  next
    case False
    then have "0 \<le> ?r \<and> ?r < int (BUCKET_COUNT (config a))" "0 \<le> ?l \<and> ?l < int (BUCKET_COUNT (config a))"
      using getBucketIndex_range[of "config a" "rpm p" "rpmBoundaries a"]
        getBucketIndex_range[of "config a" "load p" "loadBoundaries a"]
      by simp_all
    then have "js_index_int delayTable ?r = Some (delayTable ! nat ?r)"
      "js_index_int (delayTable ! nat ?r) ?l = Some (delayTable ! nat ?r ! nat ?l)"
      using grid_cell[OF assms, of ?r ?l] by simp_all
    then show ?thesis using False
      by (auto simp add: validate_point_def Let_def split: option.splits)
  qed
qed

lemma validate_loop_ok:
  assumes "grid_ok (BUCKET_COUNT (config a)) delayTable"
  shows "\<exists>be'. validate_loop a delayTable ps be = Inr be'"
proof (induction ps arbitrary: be)
  case Nil
  then show ?case by simp
next
  case (Cons p ps)
  from validate_point_ok[OF assms] obtain be1 where "validate_point a delayTable be p = Inr be1"
    by blast
  with Cons.IH[of be1] show ?case by simp
qed

lemma calculateLambdaErrors_ok:
  assumes "grid_ok (BUCKET_COUNT (config a)) delayTable"
  shows "\<exists>be. validate_loop a delayTable (data a) [] = Inr be \<and>
              calculateLambdaErrors a delayTable = Inr (summarize be)"
proof -
  from validate_loop_ok[OF assms] obtain be where "validate_loop a delayTable (data a) [] = Inr be"
    by blast
  then show ?thesis by (simp add: calculateLambdaErrors_def)
qed



lemma nearest_within_iff: "nearest_within d t = (\<exists>s\<in>set d. \<bar>time s - t\<bar> < 1 / 2)"
proof (cases "d = []")
  case True
  then show ?thesis by (simp add: nearest_within_def)
next
  case False
  then have "(Min ((\<lambda>s. \<bar>time s - t\<bar>) ` set d) < 1 / 2) = (\<exists>a\<in>(\<lambda>s. \<bar>time s - t\<bar>) ` set d. a < 1 / 2)"
    by (intro Min_less_iff) simp_all
  then show ?thesis using False by (simp add: nearest_within_def)
qed






subsection \<open>Index safety of the grid accesses\<close>

text \<open>
  Claim C10. For every value and every boundaries array (whatever its length, so in
  particular of length \<open>BUCKET_COUNT + 1\<close>), \<open>getBucketIndex\<close> returns \<open>-1\<close> or an integer
  in \<open>[0, BUCKET_COUNT)\<close>. Hence \<open>assignToBuckets\<close> on a \<open>BUCKET_COUNT \<times> BUCKET_COUNT\<close>
  grid of buckets and the Validator on a \<open>BUCKET_COUNT \<times> BUCKET_COUNT\<close> delay table,
  which index the grid only when both results differ from \<open>-1\<close>, never read a missing
  row or column: both run to completion without a TypeError.
\<close>

theorem getBucketIndex_safe:
  "(getBucketIndex cfg v bs = - 1 \<or>
      (0 \<le> getBucketIndex cfg v bs \<and> getBucketIndex cfg v bs < int (BUCKET_COUNT cfg))) \<and>
   (grid_ok (BUCKET_COUNT (config a)) (buckets a) \<longrightarrow>
      (\<exists>a'. assignToBuckets a = Inr a' \<and> grid_ok (BUCKET_COUNT (config a)) (buckets a'))) \<and>
   (grid_ok (BUCKET_COUNT (config a)) delayTable \<longrightarrow>
      (\<exists>rep. calculateLambdaErrors a delayTable = Inr rep))"
proof -
  have "\<exists>a'. assignToBuckets a = Inr a' \<and> grid_ok (BUCKET_COUNT (config a)) (buckets a')"
    if "grid_ok (BUCKET_COUNT (config a)) (buckets a)"
  proof -
    from assignToBuckets_loop_ok[OF that]
    obtain bs' where "assignToBuckets_loop (config a) (rpmBoundaries a) (loadBoundaries a) (data a) (buckets a) = Inr bs'"
      "grid_ok (BUCKET_COUNT (config a)) bs'" by blast
    then show ?thesis by (simp add: assignToBuckets_def)
  qed
  moreover have "\<exists>rep. calculateLambdaErrors a delayTable = Inr rep"
    if "grid_ok (BUCKET_COUNT (config a)) delayTable"
    using calculateLambdaErrors_ok[OF that] by blast
  ultimately show ?thesis using getBucketIndex_range[of cfg v bs] by blast
qed

theorem getBucketIndex_safe_witness:
  "grid_ok (BUCKET_COUNT (config demo_analyzer)) (buckets demo_analyzer) \<and>
   grid_ok (BUCKET_COUNT (config demo_analyzer)) demo_table \<and>
   getBucketIndex CONFIG 3000 [500, 1000, 2000, 3000] = 2 \<and>
   (\<exists>a'. assignToBuckets demo_analyzer = Inr a') \<and>
   (\<exists>rep. calculateLambdaErrors demo_analyzer demo_table = Inr rep)"
proof -
  have h1: "grid_ok (BUCKET_COUNT (config demo_analyzer)) (buckets demo_analyzer)"
    by (simp add: grid_ok_def demo_analyzer_def CONFIG_def list_all_iff)
  have h2: "grid_ok (BUCKET_COUNT (config demo_analyzer)) demo_table"
    by (simp add: grid_ok_def demo_analyzer_def demo_table_def CONFIG_def)
  have v: "getBucketIndex CONFIG 3000 [500, 1000, 2000, 3000] = 2"
    by (simp add: getBucketIndex_def getBucketIndex_loop.simps CONFIG_def js_index_def)
  show ?thesis
    using getBucketIndex_safe[of CONFIG 3000 "[500, 1000, 2000, 3000]" demo_analyzer demo_table] h1 h2 v
    by blast
qed

subsection \<open>Nearest-timestamp search, by bisection\<close>











subsection \<open>Cross-Session Aggregator\<close>

lemma collect_medians_spec:
  assumes "list_all (grid_ok n) rs" and "i < n" and "j < n"
  shows "collect_medians rs i j vals =
           Inr (vals @ List.map_filter (\<lambda>tbl. cell_median (tbl ! i ! j)) rs)"
  using assms(1)
proof (induction rs arbitrary: vals)
  case Nil
  then show ?case by (simp add: List.map_filter_def)
next
  case (Cons tbl rs)
  then have g: "grid_ok n tbl" and rest: "list_all (grid_ok n) rs" by simp_all
  from g assms(2) have i: "i < length tbl" by (simp add: grid_ok_def)
  then have "tbl ! i \<in> set tbl" by simp
  with g assms(3) have j: "j < length (tbl ! i)" by (simp add: grid_ok_def list_all_iff)
  show ?case
    using i j Cons.IH[OF rest]
    by (cases "cell_median (tbl ! i ! j)") (simp_all add: js_index_def)
qed

lemma foldl_min_Min: "foldl min (a::real) xs = Min (insert a (set xs))"
proof (induction xs arbitrary: a)
  case Nil
  then show ?case by simp
next
  case (Cons x xs)
  have "Min (insert (min a x) (set xs)) = Min (insert a (insert x (set xs)))"
    by (cases "set xs = {}") (simp_all add: min.assoc)
  then show ?case using Cons by simp
qed

lemma foldl_max_Max: "foldl max (a::real) xs = Max (insert a (set xs))"
proof (induction xs arbitrary: a)
  case Nil
  then show ?case by simp
next
  case (Cons x xs)
  have "Max (insert (max a x) (set xs)) = Max (insert a (insert x (set xs)))"
    by (cases "set xs = {}") (simp_all add: max.assoc)
  then show ?case using Cons by simp
qed

lemma Math_min_Min: "vals \<noteq> [] \<Longrightarrow> Math_min vals = Min (set vals)"
  by (cases vals) (simp_all add: Math_min_def foldl_min_Min)

lemma Math_max_Max: "vals \<noteq> [] \<Longrightarrow> Math_max vals = Max (set vals)"
  by (cases vals) (simp_all add: Math_max_def foldl_max_Max)

lemma stats_of_spec:
  assumes "2 \<le> length vals"
  shows "\<exists>st. stats_of i j vals = Some st \<and> st_values st = vals \<and>
           st_filesWithData st = length vals \<and>
           st_mean st = sum_list vals / real (length vals) \<and>
           st_stdDev st = pop_stddev vals \<and>
           st_cv st = (if st_mean st = 0 then None else Some (st_stdDev st / st_mean st * 100)) \<and>
           st_min st = Min (set vals) \<and> st_max st = Max (set vals) \<and>
           st_range st = st_max st - st_min st"
proof -
  from assms have ne: "vals \<noteq> []" by auto
  have m: "foldl (\<lambda>a b. a + b) 0 vals = sum_list vals"
    using foldl_add_sum[of "\<lambda>x. x" 0 vals] by simp
  have v: "foldl (\<lambda>a b. a + (b - c)\<^sup>2) 0 vals = (\<Sum>x\<leftarrow>vals. (x - c)\<^sup>2)" for c
    using foldl_add_sum[of "\<lambda>b. (b - c)\<^sup>2" 0 vals] by simp
  show ?thesis
    using assms
    by (simp add: stats_of_def Let_def m v pop_stddev_def Math_min_Min[OF ne] Math_max_Max[OF ne])
qed

lemma stats_of_none: "length vals < 2 \<Longrightarrow> stats_of i j vals = None"
  by (simp add: stats_of_def)

lemma scenario_d_values:
  "List.map_filter (\<lambda>tbl. cell_median (tbl ! 0 ! 0)) scenario_d = [90, 100, 110]"
  by (simp add: scenario_d_def session_with_def List.map_filter_def)

lemma scenario_d_grid: "list_all (grid_ok 3) scenario_d"
  by (simp add: scenario_d_def session_with_def grid_ok_def)

lemma scenario_d_stddev: "\<bar>pop_stddev [90, 100, 110] - 8165 / 1000\<bar> < 1 / 1000"
proof -
  have e: "pop_stddev [90, 100, 110] = sqrt (200 / 3)"
    by (simp add: pop_stddev_def)
  have "sqrt (200 / 3) < 8166 / 1000"
    by (rule real_less_lsqrt) (simp_all add: power2_eq_square)
  moreover have "8164 / 1000 < sqrt (200 / 3)"
    by (rule real_less_rsqrt) (simp_all add: power2_eq_square)
  ultimately show ?thesis unfolding e by linarith
qed

text \<open>
  Claim C8. For a bucket \<open>(i, j)\<close> of 3 by 3 session tables, the aggregator collects the
  medians that are not absent, in session order. With fewer than two of them the bucket
  gets no statistics. With two or more it gets: the number of contributing sessions, the
  mean, the population standard deviation (the sum of squared deviations divided by
  \<open>N\<close>), \<open>cv = stdDev / mean * 100\<close> (for a mean other than zero), the minimum, the
  maximum, and their difference as the range. For the medians \<open>[90, 100, 110]\<close> of three
  sessions the mean is 100, the standard deviation is within 0.001 of 8.165, and the
  coefficient of variation is within 0.01 of 8.17 (it is 8.16496...).
\<close>

theorem bucketStats_spec:
  assumes "list_all (grid_ok 3) allResults" and "i < 3" and "j < 3"
  shows "(length (List.map_filter (\<lambda>tbl. cell_median (tbl ! i ! j)) allResults) < 2 \<longrightarrow>
            bucketStats allResults i j = Inr None) \<and>
         (2 \<le> length (List.map_filter (\<lambda>tbl. cell_median (tbl ! i ! j)) allResults) \<longrightarrow>
            (\<exists>st. bucketStats allResults i j = Inr (Some st) \<and>
               st_values st = List.map_filter (\<lambda>tbl. cell_median (tbl ! i ! j)) allResults \<and>
               st_filesWithData st = length (st_values st) \<and>
               st_mean st = sum_list (st_values st) / real (length (st_values st)) \<and>
               st_stdDev st = pop_stddev (st_values st) \<and>
               (st_mean st \<noteq> 0 \<longrightarrow> st_cv st = Some (st_stdDev st / st_mean st * 100)) \<and>
               st_min st = Min (set (st_values st)) \<and> st_max st = Max (set (st_values st)) \<and>
               st_range st = st_max st - st_min st)) \<and>
         (\<exists>st c. bucketStats scenario_d 0 0 = Inr (Some st) \<and> st_values st = [90, 100, 110] \<and>
               st_mean st = 100 \<and> \<bar>st_stdDev st - 8165 / 1000\<bar> < 1 / 1000 \<and>
               st_cv st = Some c \<and> \<bar>c - 817 / 100\<bar> < 1 / 100)"
proof -
  let ?vals = "List.map_filter (\<lambda>tbl. cell_median (tbl ! i ! j)) allResults"
  have b: "bucketStats allResults i j = Inr (stats_of i j ?vals)"
    using collect_medians_spec[OF assms, of "[]"] by (simp add: bucketStats_def)
  have few: "bucketStats allResults i j = Inr None" if "length ?vals < 2"
    using b stats_of_none[OF that] by simp
  have many: "\<exists>st. bucketStats allResults i j = Inr (Some st) \<and>
               st_values st = ?vals \<and>
               st_filesWithData st = length (st_values st) \<and>
               st_mean st = sum_list (st_values st) / real (length (st_values st)) \<and>
               st_stdDev st = pop_stddev (st_values st) \<and>
               (st_mean st \<noteq> 0 \<longrightarrow> st_cv st = Some (st_stdDev st / st_mean st * 100)) \<and>
               st_min st = Min (set (st_values st)) \<and> st_max st = Max (set (st_values st)) \<and>
               st_range st = st_max st - st_min st"
    if "2 \<le> length ?vals"
  proof -
    from stats_of_spec[OF that, of i j] obtain st where st: "stats_of i j ?vals = Some st"
      "st_values st = ?vals" "st_filesWithData st = length ?vals"
      "st_mean st = sum_list ?vals / real (length ?vals)" "st_stdDev st = pop_stddev ?vals"
      "st_cv st = (if st_mean st = 0 then None else Some (st_stdDev st / st_mean st * 100))"
      "st_min st = Min (set ?vals)" "st_max st = Max (set ?vals)"
      "st_range st = st_max st - st_min st" by blast
    have "bucketStats allResults i j = Inr (Some st)" using b st(1) by simp
    then show ?thesis using st by auto
  qed
  have d: "\<exists>st c. bucketStats scenario_d 0 0 = Inr (Some st) \<and> st_values st = [90, 100, 110] \<and>
               st_mean st = 100 \<and> \<bar>st_stdDev st - 8165 / 1000\<bar> < 1 / 1000 \<and>
               st_cv st = Some c \<and> \<bar>c - 817 / 100\<bar> < 1 / 100"
  proof -
    have "bucketStats scenario_d 0 0 = Inr (stats_of 0 0 [90, 100, 110])"
      using collect_medians_spec[OF scenario_d_grid, of 0 0 "[]"] scenario_d_values
      by (simp add: bucketStats_def)
    moreover from stats_of_spec[of "[90, 100, 110]" 0 0] obtain st where
      st: "stats_of 0 0 [90, 100, 110] = Some st" "st_values st = [90, 100, 110]"
      "st_mean st = sum_list [90, 100, 110] / real (length [90, 100, 110 :: real])"
      "st_stdDev st = pop_stddev [90, 100, 110]"
      "st_cv st = (if st_mean st = 0 then None else Some (st_stdDev st / st_mean st * 100))"
      by auto
    moreover have mean: "st_mean st = 100" using st(3) by simp
    moreover have sd: "\<bar>st_stdDev st - 8165 / 1000\<bar> < 1 / 1000"
      using st(4) scenario_d_stddev by simp
    moreover have "st_cv st = Some (st_stdDev st)" using st(5) mean by simp
    moreover have "\<bar>st_stdDev st - 817 / 100\<bar> < 1 / 100" using sd by linarith
    ultimately have "bucketStats scenario_d 0 0 = Inr (Some st) \<and> st_values st = [90, 100, 110] \<and>
               st_mean st = 100 \<and> \<bar>st_stdDev st - 8165 / 1000\<bar> < 1 / 1000 \<and>
               st_cv st = Some (st_stdDev st) \<and> \<bar>st_stdDev st - 817 / 100\<bar> < 1 / 100"
      by simp
    then show ?thesis by blast
  qed
  show ?thesis using few many d by blast
qed

theorem bucketStats_spec_witness:
  "list_all (grid_ok 3) scenario_d \<and> (0::nat) < 3 \<and>
   2 \<le> length (List.map_filter (\<lambda>tbl. cell_median (tbl ! 0 ! 0)) scenario_d) \<and>
   length (List.map_filter (\<lambda>tbl. cell_median (tbl ! 0 ! 1)) scenario_d) < 2 \<and>
   bucketStats scenario_d 0 1 = Inr None \<and>
   (\<exists>st. bucketStats scenario_d 0 0 = Inr (Some st) \<and> st_filesWithData st = 3 \<and>
      st_min st = 90 \<and> st_max st = 110 \<and> st_range st = 20)"
proof -
  have z: "(0::nat) < 3" "(1::nat) < 3" by simp_all
  have v1: "List.map_filter (\<lambda>tbl. cell_median (tbl ! 0 ! 1)) scenario_d = []"
    by (simp add: scenario_d_def session_with_def List.map_filter_def)
  have a: "bucketStats scenario_d 0 1 = Inr None"
    using bucketStats_spec[OF scenario_d_grid z(1) z(2)] v1 by simp
  have "\<exists>st. bucketStats scenario_d 0 0 = Inr (Some st) \<and>
          st_values st = [90, 100, 110] \<and> st_filesWithData st = length (st_values st) \<and>
          st_min st = Min (set (st_values st)) \<and> st_max st = Max (set (st_values st)) \<and>
          st_range st = st_max st - st_min st"
    using bucketStats_spec[OF scenario_d_grid z(1) z(1)] scenario_d_values by auto
  then obtain st where st: "bucketStats scenario_d 0 0 = Inr (Some st)"
    "st_values st = [90, 100, 110]" "st_filesWithData st = length (st_values st)"
    "st_min st = Min (set (st_values st))" "st_max st = Max (set (st_values st))"
    "st_range st = st_max st - st_min st" by blast
  have "st_filesWithData st = 3" "st_min st = 90" "st_max st = 110" "st_range st = 20"
    using st by simp_all
  then show ?thesis using st(1) a v1 scenario_d_grid scenario_d_values by auto
qed

subsection \<open>Table Builder\<close>

lemma js_round_nearest: "\<bar>real_of_int (js_round x) - x\<bar> \<le> 1 / 2"
proof -
  have "real_of_int \<lfloor>x + 1 / 2\<rfloor> \<le> x + 1 / 2" by (rule of_int_floor_le)
  moreover have "x + 1 / 2 < real_of_int \<lfloor>x + 1 / 2\<rfloor> + 1" by (rule real_of_int_floor_add_one_gt)
  ultimately show ?thesis unfolding js_round_def by linarith
qed

lemma roundedDelay_nearest: "\<bar>real_of_int (js_round (m * 10)) / 10 - m\<bar> \<le> 1 / 20"
  using js_round_nearest[of "m * 10"] by linarith

lemma axis_loop_spec:
  "axis_loop a i rv lv =
     (rv @ map (axis_value (rpmBoundaries a)) [i ..< BUCKET_COUNT (config a)],
      lv @ map (axis_value (loadBoundaries a)) [i ..< BUCKET_COUNT (config a)])"
proof (induction a i rv lv rule: axis_loop.induct)
  case (1 a i rv lv)
  show ?case
  proof (cases "i < BUCKET_COUNT (config a)")
    case True
    then have upt: "[i ..< BUCKET_COUNT (config a)] = i # [i + 1 ..< BUCKET_COUNT (config a)]"
      by (simp add: upt_conv_Cons)
    have "axis_loop a i rv lv =
        axis_loop a (i + 1) (rv @ [axis_value (rpmBoundaries a) i]) (lv @ [axis_value (loadBoundaries a) i])"
      using True by (subst axis_loop.simps) (simp add: Let_def axis_value_def)
    also have "\<dots> = ((rv @ [axis_value (rpmBoundaries a) i]) @ map (axis_value (rpmBoundaries a)) [i + 1 ..< BUCKET_COUNT (config a)],
         (lv @ [axis_value (loadBoundaries a) i]) @ map (axis_value (loadBoundaries a)) [i + 1 ..< BUCKET_COUNT (config a)])"
      using 1[OF True refl refl] by (simp add: axis_value_def)
    finally show ?thesis unfolding upt by simp
  next
    case False
    then show ?thesis by (subst axis_loop.simps) simp
  qed
qed

lemma cells_loop_spec:
  assumes "grid_ok (BUCKET_COUNT (config a)) (buckets a)" and "i < BUCKET_COUNT (config a)"
  shows "cells_loop a i j ds = Inr (ds @ map (table_cell a i) [j ..< BUCKET_COUNT (config a)])"
  using assms
proof (induction a i j ds rule: cells_loop.induct)
  case (1 a i j ds)
  show ?case
  proof (cases "j < BUCKET_COUNT (config a)")
    case True
    then have upt: "[j ..< BUCKET_COUNT (config a)] = j # [j + 1 ..< BUCKET_COUNT (config a)]"
      by (simp add: upt_conv_Cons)
    from 1(2,3) have i: "i < length (buckets a)" by (simp add: grid_ok_def)
    then have "buckets a ! i \<in> set (buckets a)" by simp
    with 1(2) True have j: "j < length (buckets a ! i)" by (simp add: grid_ok_def list_all_iff)
    have r: "js_index (buckets a) i = Some (buckets a ! i)" using i by (simp add: js_index_def)
    have c: "js_index (buckets a ! i) j = Some (buckets a ! i ! j)" using j by (simp add: js_index_def)
    have "cells_loop a i j ds = cells_loop a i (j + 1) (ds @ [table_cell a i j])"
      using True r c by (subst cells_loop.simps) (simp add: table_cell_def)
    also have "\<dots> = Inr ((ds @ [table_cell a i j]) @ map (table_cell a i) [j + 1 ..< BUCKET_COUNT (config a)])"
      using 1(1)[OF True r c 1(2,3)] by (simp add: table_cell_def)
    finally show ?thesis unfolding upt by simp
  next
    case False
    then show ?thesis by (subst cells_loop.simps) simp
  qed
qed

lemma rows_loop_spec:
  assumes "grid_ok (BUCKET_COUNT (config a)) (buckets a)"
  shows "rows_loop a rv lv i tbl =
     Inr (tbl @ map (\<lambda>i. \<lparr>row_rpm = (case js_index rv i of None \<Rightarrow> None | Some v \<Rightarrow> v),
                           row_load = lv,
                           row_delays = map (table_cell a i) [0 ..< BUCKET_COUNT (config a)]\<rparr>)
                  [i ..< BUCKET_COUNT (config a)])"
  using assms
proof (induction a rv lv i tbl rule: rows_loop.induct)
  case (1 a rv lv i tbl)
  let ?row = "\<lambda>i. \<lparr>row_rpm = (case js_index rv i of None \<Rightarrow> None | Some v \<Rightarrow> v),
                           row_load = lv,
                           row_delays = map (table_cell a i) [0 ..< BUCKET_COUNT (config a)]\<rparr>"
  show ?case
  proof (cases "i < BUCKET_COUNT (config a)")
    case True
    then have upt: "[i ..< BUCKET_COUNT (config a)] = i # [i + 1 ..< BUCKET_COUNT (config a)]"
      by (simp add: upt_conv_Cons)
    have cells: "cells_loop a i 0 [] = Inr (map (table_cell a i) [0 ..< BUCKET_COUNT (config a)])"
      using cells_loop_spec[OF 1(2) True, of 0 "[]"] by simp
    have "rows_loop a rv lv i tbl = rows_loop a rv lv (i + 1) (tbl @ [?row i])"
      using True cells by (subst rows_loop.simps) simp
    also have "\<dots> = Inr ((tbl @ [?row i]) @ map ?row [i + 1 ..< BUCKET_COUNT (config a)])"
      using 1(1)[OF True cells 1(2)] by simp
    finally show ?thesis unfolding upt by simp
  next
    case False
    then show ?thesis by (subst rows_loop.simps) simp
  qed
qed

lemma axis_value_in_range:
  assumes "length bs = n + 1" and "i < n"
  shows "axis_value bs i = Some (js_round ((bs ! i + bs ! (i + 1)) / 2))"
  using assms by (simp add: axis_value_def js_index_def)

lemma table_cell_cases:
  "(ds = [] \<longrightarrow> roundedDelay (median ds) = None) \<and>
   (ds \<noteq> [] \<longrightarrow> roundedDelay (median ds) \<noteq> None) \<and>
   (\<forall>m. median ds = Some m \<longrightarrow>
      roundedDelay (median ds) = Some (real_of_int (js_round (m * 10)) / 10))"
  by (simp add: roundedDelay_def median_def Let_def)

text \<open>
  Claim C9. For boundaries of \<open>BUCKET_COUNT + 1\<close> cut points on each axis and a
  \<open>BUCKET_COUNT \<times> BUCKET_COUNT\<close> grid of buckets, \<open>generateTable\<close> returns a table of
  \<open>BUCKET_COUNT\<close> rows and the two axis arrays. The axis value of index \<open>i\<close> is
  \<open>Math.round\<close> of \<open>(boundary[i] + boundary[i+1]) / 2\<close>, an integer at most one half
  away from the midpoint, for the RPM and for the load axis. The cell \<open>(i, j)\<close> is
  \<open>Math.round(m * 10) / 10\<close> for the median \<open>m\<close> of the bucket's delay list, a multiple
  of one tenth at most one twentieth away from \<open>m\<close>; it is absent (\<open>null\<close>) exactly when
  the bucket has no measurement.
\<close>

theorem generateTable_spec:
  assumes "length (rpmBoundaries a) = BUCKET_COUNT (config a) + 1"
    and "length (loadBoundaries a) = BUCKET_COUNT (config a) + 1"
    and "grid_ok (BUCKET_COUNT (config a)) (buckets a)"
  shows "\<exists>table rpmAxis loadAxis.
     generateTable a = Inr (table, rpmAxis, loadAxis) \<and>
     length table = BUCKET_COUNT (config a) \<and>
     length rpmAxis = BUCKET_COUNT (config a) \<and> length loadAxis = BUCKET_COUNT (config a) \<and>
     (\<forall>i<BUCKET_COUNT (config a).
        rpmAxis ! i = Some (js_round ((rpmBoundaries a ! i + rpmBoundaries a ! (i + 1)) / 2)) \<and>
        \<bar>real_of_int (js_round ((rpmBoundaries a ! i + rpmBoundaries a ! (i + 1)) / 2))
            - (rpmBoundaries a ! i + rpmBoundaries a ! (i + 1)) / 2\<bar> \<le> 1 / 2 \<and>
        loadAxis ! i = Some (js_round ((loadBoundaries a ! i + loadBoundaries a ! (i + 1)) / 2)) \<and>
        \<bar>real_of_int (js_round ((loadBoundaries a ! i + loadBoundaries a ! (i + 1)) / 2))
            - (loadBoundaries a ! i + loadBoundaries a ! (i + 1)) / 2\<bar> \<le> 1 / 2 \<and>
        row_rpm (table ! i) = rpmAxis ! i \<and> row_load (table ! i) = loadAxis \<and>
        length (row_delays (table ! i)) = BUCKET_COUNT (config a) \<and>
        (\<forall>j<BUCKET_COUNT (config a).
           (bucket_delays (buckets a ! i ! j) = [] \<longrightarrow> row_delays (table ! i) ! j = None) \<and>
           (bucket_delays (buckets a ! i ! j) \<noteq> [] \<longrightarrow> row_delays (table ! i) ! j \<noteq> None) \<and>
           (\<forall>m. median (bucket_delays (buckets a ! i ! j)) = Some m \<longrightarrow>
              row_delays (table ! i) ! j = Some (real_of_int (js_round (m * 10)) / 10) \<and>
              \<bar>real_of_int (js_round (m * 10)) / 10 - m\<bar> \<le> 1 / 20)))"
proof -
  let ?n = "BUCKET_COUNT (config a)"
  let ?rv = "map (axis_value (rpmBoundaries a)) [0 ..< ?n]"
  let ?lv = "map (axis_value (loadBoundaries a)) [0 ..< ?n]"
  let ?row = "\<lambda>i. \<lparr>row_rpm = (case js_index ?rv i of None \<Rightarrow> None | Some v \<Rightarrow> v),
                    row_load = ?lv, row_delays = map (table_cell a i) [0 ..< ?n]\<rparr>"
  let ?table = "map ?row [0 ..< ?n]"
  have axes: "axis_loop a 0 [] [] = (?rv, ?lv)"
    by (simp add: axis_loop_spec)
  have rows: "rows_loop a ?rv ?lv 0 [] = Inr ?table"
    using rows_loop_spec[OF assms(3), of ?rv ?lv 0 "[]"] by simp
  have gen: "generateTable a = Inr (?table, ?rv, ?lv)"
    by (simp add: generateTable_def axes rows)
  have per: "?rv ! i = Some (js_round ((rpmBoundaries a ! i + rpmBoundaries a ! (i + 1)) / 2)) \<and>
        \<bar>real_of_int (js_round ((rpmBoundaries a ! i + rpmBoundaries a ! (i + 1)) / 2))
            - (rpmBoundaries a ! i + rpmBoundaries a ! (i + 1)) / 2\<bar> \<le> 1 / 2 \<and>
        ?lv ! i = Some (js_round ((loadBoundaries a ! i + loadBoundaries a ! (i + 1)) / 2)) \<and>
        \<bar>real_of_int (js_round ((loadBoundaries a ! i + loadBoundaries a ! (i + 1)) / 2))
            - (loadBoundaries a ! i + loadBoundaries a ! (i + 1)) / 2\<bar> \<le> 1 / 2 \<and>
        row_rpm (?table ! i) = ?rv ! i \<and> row_load (?table ! i) = ?lv \<and>
        length (row_delays (?table ! i)) = ?n \<and>
        (\<forall>j<?n.
           (bucket_delays (buckets a ! i ! j) = [] \<longrightarrow> row_delays (?table ! i) ! j = None) \<and>
           (bucket_delays (buckets a ! i ! j) \<noteq> [] \<longrightarrow> row_delays (?table ! i) ! j \<noteq> None) \<and>
           (\<forall>m. median (bucket_delays (buckets a ! i ! j)) = Some m \<longrightarrow>
              row_delays (?table ! i) ! j = Some (real_of_int (js_round (m * 10)) / 10) \<and>
              \<bar>real_of_int (js_round (m * 10)) / 10 - m\<bar> \<le> 1 / 20))"
    if i: "i < ?n" for i
  proof -
    have r: "?rv ! i = Some (js_round ((rpmBoundaries a ! i + rpmBoundaries a ! (i + 1)) / 2))"
      using i axis_value_in_range[OF assms(1) i] by simp
    have l: "?lv ! i = Some (js_round ((loadBoundaries a ! i + loadBoundaries a ! (i + 1)) / 2))"
      using i axis_value_in_range[OF assms(2) i] by simp
    have row: "?table ! i = ?row i" using i by simp
    have rr: "row_rpm (?table ! i) = ?rv ! i"
      unfolding row using i by (simp add: js_index_def)
    have cells: "\<forall>j<?n.
           (bucket_delays (buckets a ! i ! j) = [] \<longrightarrow> row_delays (?table ! i) ! j = None) \<and>
           (bucket_delays (buckets a ! i ! j) \<noteq> [] \<longrightarrow> row_delays (?table ! i) ! j \<noteq> None) \<and>
           (\<forall>m. median (bucket_delays (buckets a ! i ! j)) = Some m \<longrightarrow>
              row_delays (?table ! i) ! j = Some (real_of_int (js_round (m * 10)) / 10) \<and>
              \<bar>real_of_int (js_round (m * 10)) / 10 - m\<bar> \<le> 1 / 20)"
    proof (intro allI impI)
      fix j assume j: "j < ?n"
      have "row_delays (?table ! i) ! j = roundedDelay (median (bucket_delays (buckets a ! i ! j)))"
        unfolding row using j by (simp add: table_cell_def)
      then show "(bucket_delays (buckets a ! i ! j) = [] \<longrightarrow> row_delays (?table ! i) ! j = None) \<and>
           (bucket_delays (buckets a ! i ! j) \<noteq> [] \<longrightarrow> row_delays (?table ! i) ! j \<noteq> None) \<and>
           (\<forall>m. median (bucket_delays (buckets a ! i ! j)) = Some m \<longrightarrow>
              row_delays (?table ! i) ! j = Some (real_of_int (js_round (m * 10)) / 10) \<and>
              \<bar>real_of_int (js_round (m * 10)) / 10 - m\<bar> \<le> 1 / 20)"
        using table_cell_cases[of "bucket_delays (buckets a ! i ! j)"] roundedDelay_nearest
        by simp
    qed
    have len: "length (row_delays (?table ! i)) = ?n" unfolding row by simp
    have rl: "row_load (?table ! i) = ?lv" unfolding row by simp
    show ?thesis
      using r l rr rl len cells js_round_nearest by blast
  qed
  have "generateTable a = Inr (?table, ?rv, ?lv) \<and> length ?table = ?n \<and>
      length ?rv = ?n \<and> length ?lv = ?n"
    using gen by simp
  with per show ?thesis by blast
qed

lemma table_analyzer_median:
  "median (bucket_delays (buckets table_analyzer ! 1 ! 2)) = Some (24046 / 100)"
  by (simp add: table_analyzer_def median_def)

lemma table_analyzer_round: "real_of_int (js_round (24046 / 100 * 10)) / 10 = 2405 / 10"
  by (simp add: js_round_def)

theorem generateTable_spec_witness:
  "length (rpmBoundaries table_analyzer) = BUCKET_COUNT (config table_analyzer) + 1 \<and>
   length (loadBoundaries table_analyzer) = BUCKET_COUNT (config table_analyzer) + 1 \<and>
   grid_ok (BUCKET_COUNT (config table_analyzer)) (buckets table_analyzer) \<and>
   (\<exists>table rpmAxis loadAxis.
      generateTable table_analyzer = Inr (table, rpmAxis, loadAxis) \<and>
      rpmAxis ! 1 = Some 1500 \<and> loadAxis ! 2 = Some 70 \<and>
      row_delays (table ! 1) ! 2 = Some (2405 / 10) \<and> row_delays (table ! 0) ! 0 = None)"
proof -
  have n: "BUCKET_COUNT (config table_analyzer) = 3"
    by (simp add: table_analyzer_def demo_analyzer_def CONFIG_def)
  have h: "length (rpmBoundaries table_analyzer) = BUCKET_COUNT (config table_analyzer) + 1"
    "length (loadBoundaries table_analyzer) = BUCKET_COUNT (config table_analyzer) + 1"
    "grid_ok (BUCKET_COUNT (config table_analyzer)) (buckets table_analyzer)"
    unfolding n by (simp_all add: table_analyzer_def demo_analyzer_def grid_ok_def)
  from generateTable_spec[OF h] obtain table rpmAxis loadAxis where
    g: "generateTable table_analyzer = Inr (table, rpmAxis, loadAxis)"
    and rows: "\<forall>i<BUCKET_COUNT (config table_analyzer).
        rpmAxis ! i = Some (js_round ((rpmBoundaries table_analyzer ! i + rpmBoundaries table_analyzer ! (i + 1)) / 2)) \<and>
        loadAxis ! i = Some (js_round ((loadBoundaries table_analyzer ! i + loadBoundaries table_analyzer ! (i + 1)) / 2)) \<and>
        (\<forall>j<BUCKET_COUNT (config table_analyzer).
           (bucket_delays (buckets table_analyzer ! i ! j) = [] \<longrightarrow> row_delays (table ! i) ! j = None) \<and>
           (\<forall>m. median (bucket_delays (buckets table_analyzer ! i ! j)) = Some m \<longrightarrow>
              row_delays (table ! i) ! j = Some (real_of_int (js_round (m * 10)) / 10)))"
    by blast
  have i0: "0 < BUCKET_COUNT (config table_analyzer)" and i1: "1 < BUCKET_COUNT (config table_analyzer)"
    and i2: "2 < BUCKET_COUNT (config table_analyzer)" using n by simp_all
  have r1: "rpmAxis ! 1 = Some (js_round ((rpmBoundaries table_analyzer ! 1 + rpmBoundaries table_analyzer ! (1 + 1)) / 2))"
    using rows i1 by blast
  have l2: "loadAxis ! 2 = Some (js_round ((loadBoundaries table_analyzer ! 2 + loadBoundaries table_analyzer ! (2 + 1)) / 2))"
    using rows i2 by blast
  have "\<forall>m. median (bucket_delays (buckets table_analyzer ! 1 ! 2)) = Some m \<longrightarrow>
              row_delays (table ! 1) ! 2 = Some (real_of_int (js_round (m * 10)) / 10)"
    using rows i1 i2 by blast
  then have c12: "row_delays (table ! 1) ! 2 = Some (real_of_int (js_round (24046 / 100 * 10)) / 10)"
    using table_analyzer_median by blast
  have c00: "bucket_delays (buckets table_analyzer ! 0 ! 0) = [] \<longrightarrow> row_delays (table ! 0) ! 0 = None"
    using rows i0 by blast
  have "rpmAxis ! 1 = Some 1500"
    using r1 by (simp add: table_analyzer_def demo_analyzer_def js_round_def)
  moreover have "loadAxis ! 2 = Some 70"
    using l2 by (simp add: table_analyzer_def demo_analyzer_def js_round_def)
  moreover have "row_delays (table ! 1) ! 2 = Some (2405 / 10)"
    using c12 table_analyzer_round by simp
  moreover have "row_delays (table ! 0) ! 0 = None"
    using c00 by (simp add: table_analyzer_def)
  ultimately show ?thesis using g h by blast
qed

subsection \<open>Validator, a whole run\<close>

lemma update_values_subset: "snd ` set (AList.update k v al) \<subseteq> insert v (snd ` set al)"
  by (induction al) auto

lemma push_lambda_keeps:
  assumes "distinct (map fst be)" and "[] \<notin> snd ` set be"
  shows "distinct (map fst (push_lambda be k x)) \<and> [] \<notin> snd ` set (push_lambda be k x)"
proof -
  let ?v = "(case map_of be k of None \<Rightarrow> [] | Some ls \<Rightarrow> ls) @ [x]"
  have "distinct (map fst (AList.update k ?v be))"
    using assms(1) by (rule distinct_update)
  moreover have "snd ` set (AList.update k ?v be) \<subseteq> insert ?v (snd ` set be)"
    by (rule update_values_subset)
  moreover have "?v \<noteq> []" by simp
  ultimately show ?thesis using assms(2) unfolding push_lambda_def by blast
qed

lemma validate_point_shape:
  assumes "validate_point a delayTable be p = Inr be'"
  shows "be' = be \<or> (\<exists>k x. be' = push_lambda be k x)"
  using assms validate_point_target[of a delayTable be p]
  by (auto split: option.splits if_splits)

lemma validate_point_recorded:
  assumes "grid_ok (BUCKET_COUNT (config a)) delayTable"
  shows "\<exists>be'. validate_point a delayTable be p = Inr be' \<and>
           (\<forall>k. accuracy_list be' k =
              (if recorded_in a delayTable k p then accuracy_list be k @ [lambda p]
               else accuracy_list be k))"
proof -
  define r where "r = getBucketIndex (config a) (rpm p) (rpmBoundaries a)"
  define l where "l = getBucketIndex (config a) (load p) (loadBoundaries a)"
  note cases = validate_point_cases[OF assms, of p be, unfolded Let_def, folded r_def l_def]
  have rec: "recorded_in a delayTable k p =
      (k = (r, l) \<and> r \<noteq> - 1 \<and> l \<noteq> - 1 \<and>
       (case delayTable ! nat r ! nat l of None \<Rightarrow> False
        | Some delay \<Rightarrow> nearest_within (data a) (time p - delay / 1000)))" for k
    by (simp add: recorded_in_def Let_def r_def l_def)
  show ?thesis
  proof (cases "r = - 1 \<or> l = - 1")
    case True
    then have "validate_point a delayTable be p = Inr be" using cases by blast
    moreover have "\<not> recorded_in a delayTable k p" for k using True rec by auto
    ultimately show ?thesis by simp
  next
    case False
    show ?thesis
    proof (cases "delayTable ! nat r ! nat l")
      case None
      then have "validate_point a delayTable be p = Inr be" using cases False by blast
      moreover have "\<not> recorded_in a delayTable k p" for k using None rec by auto
      ultimately show ?thesis by simp
    next
      case (Some delay)
      then obtain be' where be': "validate_point a delayTable be p = Inr be'"
        "\<forall>k. accuracy_list be' k =
           (if k = (r, l) \<and> nearest_within (data a) (time p - delay / 1000)
            then accuracy_list be k @ [lambda p] else accuracy_list be k)"
        using cases False by blast
      have "recorded_in a delayTable k p =
          (k = (r, l) \<and> nearest_within (data a) (time p - delay / 1000))" for k
        using False Some rec by auto
      then show ?thesis using be' by simp
    qed
  qed
qed

lemma validate_loop_recorded:
  assumes "grid_ok (BUCKET_COUNT (config a)) delayTable"
  shows "\<exists>be'. validate_loop a delayTable ps be = Inr be' \<and>
           (\<forall>k. accuracy_list be' k =
              accuracy_list be k @ map lambda (filter (recorded_in a delayTable k) ps)) \<and>
           (distinct (map fst be) \<and> [] \<notin> snd ` set be \<longrightarrow>
              distinct (map fst be') \<and> [] \<notin> snd ` set be')"
proof (induction ps arbitrary: be)
  case Nil
  then show ?case by simp
next
  case (Cons p ps)
  from validate_point_recorded[OF assms, of be p] obtain be1 where
    p: "validate_point a delayTable be p = Inr be1"
    and acc1: "\<forall>k. accuracy_list be1 k =
              (if recorded_in a delayTable k p then accuracy_list be k @ [lambda p]
               else accuracy_list be k)" by blast
  from Cons.IH[of be1] obtain be' where
    rest: "validate_loop a delayTable ps be1 = Inr be'"
    and acc: "\<forall>k. accuracy_list be' k =
              accuracy_list be1 k @ map lambda (filter (recorded_in a delayTable k) ps)"
    and inv: "distinct (map fst be1) \<and> [] \<notin> snd ` set be1 \<longrightarrow>
              distinct (map fst be') \<and> [] \<notin> snd ` set be'" by blast
  have run: "validate_loop a delayTable (p # ps) be = Inr be'"
    using p rest by simp
  have "accuracy_list be' k =
      accuracy_list be k @ map lambda (filter (recorded_in a delayTable k) (p # ps))" for k
  proof -
    have "accuracy_list be' k =
        accuracy_list be1 k @ map lambda (filter (recorded_in a delayTable k) ps)"
      using acc by blast
    moreover have "accuracy_list be1 k =
        (if recorded_in a delayTable k p then accuracy_list be k @ [lambda p]
         else accuracy_list be k)"
      using acc1 by blast
    ultimately show ?thesis by simp
  qed
  moreover have "distinct (map fst be') \<and> [] \<notin> snd ` set be'"
    if "distinct (map fst be) \<and> [] \<notin> snd ` set be"
  proof -
    have "distinct (map fst be1) \<and> [] \<notin> snd ` set be1"
      using validate_point_shape[OF p] that push_lambda_keeps by blast
    with inv show ?thesis by blast
  qed
  ultimately show ?case using run by blast
qed

text \<open>
  Claim C6. Let the delay table be a \<open>BUCKET_COUNT \<times> BUCKET_COUNT\<close> grid. For one sample
  \<open>p\<close> with RPM and load bucket indices \<open>r\<close> and \<open>l\<close>: if \<open>r\<close> or \<open>l\<close> is \<open>-1\<close>, or the cell
  \<open>delayTable[r][l]\<close> is \<open>null\<close>, the accuracy lists are left as they are; otherwise, with
  \<open>targetTime = p.time - delay / 1000\<close>, \<open>p.lambda\<close> is appended to the accuracy list of
  bucket \<open>(r, l)\<close> if and only if the time stamp nearest to \<open>targetTime\<close> in the same
  store differs from it by strictly less than 0.5 s, and no other list changes. For
  the loop over any list of samples, and so for a whole run of \<open>calculateLambdaErrors\<close>
  over \<open>analyzer.data\<close>: no error is raised, and the accuracy list of every bucket \<open>k\<close>
  is, in the order of the samples, the list of the lambdas of exactly those samples
  that fall in bucket \<open>k\<close>, have a delay in the table and have a time stamp of the
  store less than 0.5 s from their target time; every other sample contributes
  nothing. The report holds one entry per bucket that recorded a value and no empty
  list.
\<close>

theorem calculateLambdaErrors_records:
  assumes "grid_ok (BUCKET_COUNT (config a)) delayTable"
  shows "(let r = getBucketIndex (config a) (rpm p) (rpmBoundaries a);
              l = getBucketIndex (config a) (load p) (loadBoundaries a)
          in (r = - 1 \<or> l = - 1 \<longrightarrow> validate_point a delayTable be p = Inr be) \<and>
             (r \<noteq> - 1 \<and> l \<noteq> - 1 \<and> delayTable ! nat r ! nat l = None \<longrightarrow>
                validate_point a delayTable be p = Inr be) \<and>
             (\<forall>delay. r \<noteq> - 1 \<and> l \<noteq> - 1 \<and> delayTable ! nat r ! nat l = Some delay \<longrightarrow>
                (\<exists>be'. validate_point a delayTable be p = Inr be' \<and>
                   (\<forall>k. accuracy_list be' k =
                      (if k = (r, l) \<and> nearest_within (data a) (time p - delay / 1000)
                       then accuracy_list be k @ [lambda p] else accuracy_list be k))))) \<and>
         (\<exists>be'. validate_loop a delayTable ps be = Inr be' \<and>
            (\<forall>k. accuracy_list be' k =
               accuracy_list be k @ map lambda (filter (recorded_in a delayTable k) ps))) \<and>
         (\<exists>rep. calculateLambdaErrors a delayTable = Inr rep \<and>
            (\<forall>k. accuracy_list (bucketErrors rep) k =
               map lambda (filter (recorded_in a delayTable k) (data a))) \<and>
            distinct (map fst (bucketErrors rep)) \<and> [] \<notin> snd ` set (bucketErrors rep))"
proof -
  have one: "let r = getBucketIndex (config a) (rpm p) (rpmBoundaries a);
              l = getBucketIndex (config a) (load p) (loadBoundaries a)
          in (r = - 1 \<or> l = - 1 \<longrightarrow> validate_point a delayTable be p = Inr be) \<and>
             (r \<noteq> - 1 \<and> l \<noteq> - 1 \<and> delayTable ! nat r ! nat l = None \<longrightarrow>
                validate_point a delayTable be p = Inr be) \<and>
             (\<forall>delay. r \<noteq> - 1 \<and> l \<noteq> - 1 \<and> delayTable ! nat r ! nat l = Some delay \<longrightarrow>
                (\<exists>be'. validate_point a delayTable be p = Inr be' \<and>
                   (\<forall>k. accuracy_list be' k =
                      (if k = (r, l) \<and> nearest_within (data a) (time p - delay / 1000)
                       then accuracy_list be k @ [lambda p] else accuracy_list be k))))"
    by (rule validate_point_cases[OF assms])
  have loop: "\<exists>be'. validate_loop a delayTable ps be = Inr be' \<and>
            (\<forall>k. accuracy_list be' k =
               accuracy_list be k @ map lambda (filter (recorded_in a delayTable k) ps))"
    using validate_loop_recorded[OF assms, of ps be] by blast
  from validate_loop_recorded[OF assms, of "data a" "[]"] obtain be' where
    run: "validate_loop a delayTable (data a) [] = Inr be'"
    and acc: "\<forall>k. accuracy_list be' k =
               accuracy_list [] k @ map lambda (filter (recorded_in a delayTable k) (data a))"
    and inv: "distinct (map fst be') \<and> [] \<notin> snd ` set be'"
    by auto
  have res: "calculateLambdaErrors a delayTable = Inr (summarize be')"
    using run by (simp add: calculateLambdaErrors_def)
  have be: "bucketErrors (summarize be') = be'"
    by (simp add: summarize_def Let_def)
  have "\<forall>k. accuracy_list be' k = map lambda (filter (recorded_in a delayTable k) (data a))"
    using acc by (simp add: accuracy_list_def)
  then have rep: "\<exists>rep. calculateLambdaErrors a delayTable = Inr rep \<and>
            (\<forall>k. accuracy_list (bucketErrors rep) k =
               map lambda (filter (recorded_in a delayTable k) (data a))) \<and>
            distinct (map fst (bucketErrors rep)) \<and> [] \<notin> snd ` set (bucketErrors rep)"
    using res be inv by auto
  show ?thesis using one loop rep by blast
qed

lemma run_high_bucket: "getBucketIndex CONFIG 2500 [500, 1000, 2000, 3000] = 2"
  by (simp add: getBucketIndex_def getBucketIndex_loop.simps CONFIG_def js_index_def)

lemma run_no_bucket: "getBucketIndex CONFIG 100 [500, 1000, 2000, 3000] = - 1"
  by (simp add: getBucketIndex_def getBucketIndex_loop.simps CONFIG_def js_index_def)

lemma run_store_recorded:
  "map lambda (filter (recorded_in run_store run_table (1, 2)) (data run_store)) =
     [51 / 50, 103 / 100, 26 / 25, 53 / 50, 27 / 25, 109 / 100, 11 / 10, 111 / 100]"
  using demo_rpm_bucket demo_load_bucket run_high_bucket run_no_bucket
  by (simp add: recorded_in_def Let_def run_store_def demo_analyzer_def run_table_def
      mk_sample_def nearest_within_iff)

lemma run_store_other:
  "map lambda (filter (recorded_in run_store run_table (2, 2)) (data run_store)) = []"
  using demo_rpm_bucket demo_load_bucket run_high_bucket run_no_bucket
  by (simp add: recorded_in_def Let_def run_store_def demo_analyzer_def run_table_def
      mk_sample_def)

theorem calculateLambdaErrors_records_witness:
  "grid_ok (BUCKET_COUNT (config run_store)) run_table \<and> length (data run_store) = 12 \<and>
   (\<exists>rep. calculateLambdaErrors run_store run_table = Inr rep \<and>
      accuracy_list (bucketErrors rep) (1, 2) =
        [51 / 50, 103 / 100, 26 / 25, 53 / 50, 27 / 25, 109 / 100, 11 / 10, 111 / 100] \<and>
      accuracy_list (bucketErrors rep) (2, 2) = [])"
proof -
  have h: "grid_ok (BUCKET_COUNT (config run_store)) run_table"
    by (simp add: grid_ok_def run_store_def demo_analyzer_def run_table_def CONFIG_def)
  have n: "length (data run_store) = 12" by (simp add: run_store_def)
  from calculateLambdaErrors_records[OF h] obtain rep where
    rep: "calculateLambdaErrors run_store run_table = Inr rep"
    and acc: "\<forall>k. accuracy_list (bucketErrors rep) k =
       map lambda (filter (recorded_in run_store run_table k) (data run_store))"
    by blast
  have "accuracy_list (bucketErrors rep) (1, 2) =
      [51 / 50, 103 / 100, 26 / 25, 53 / 50, 27 / 25, 109 / 100, 11 / 10, 111 / 100]"
    using acc run_store_recorded by simp
  moreover have "accuracy_list (bucketErrors rep) (2, 2) = []"
    using acc run_store_other by simp
  ultimately show ?thesis using h n rep by blast
qed

end
